theory Spec2Isabelle
  imports Main "HOL-Library.Word"
begin

section \<open>Data model\<close>

text \<open>
  The monitors of \<^verbatim>\<open>main.go\<close> poll the StackPath API and print to standard output.
  A Go \<^verbatim>\<open>error\<close> is represented by its message (what \<^verbatim>\<open>%s\<close> prints), a
  \<^verbatim>\<open>time.Time\<close> by the number of nanoseconds since the epoch, so that
  \<^verbatim>\<open>time.Second\<close> is \<open>10\<^sup>9\<close>. Request times are parsed from RFC 3339 JSON strings
  (years 0 to 9999), so adding one second to them stays inside the range of
  \<^verbatim>\<open>time.Time\<close>.
\<close>

type_synonym error = string

type_synonym time = int

definition Second :: int where
  "Second = 1000000000"

text \<open>\<^verbatim>\<open>stackpath.Instance\<close> of \<^verbatim>\<open>pkg/stackpath/compute.go\<close>.\<close>

record Instance =
  ID :: string
  Name :: string
  Phase :: string
  IPAddress :: string
  ExternalIPAddress :: string

text \<open>\<^verbatim>\<open>stackpath.WAFRequest\<close> of \<^verbatim>\<open>pkg/stackpath/delivery.go\<close>.\<close>

record WAFRequest =
  ID :: string
  Action :: string
  Method :: string
  Path :: string
  ClientIP :: string
  Country :: string
  UserAgent :: string
  RuleName :: string
  RequestTime :: time

text \<open>
  Standard output is the list of print statements executed so far, one constructor for
  each print statement of the monitors, holding the arguments of the format string:
  \<^item> \<open>Println s\<close>: \<^verbatim>\<open>fmt.Println(s)\<close>;
  \<^item> \<open>InstanceIs n p\<close>: \<^verbatim>\<open>fmt.Printf("| Instance \"%s\" is %s\n", n, p)\<close>;
  \<^item> \<open>NewInstance n p\<close>: \<^verbatim>\<open>fmt.Printf("[New instance %s] instance is %s\n", n, p)\<close>;
  \<^item> \<open>InstanceNow n p\<close>: \<^verbatim>\<open>fmt.Printf("[%s] instance is now %s\n", n, p)\<close>;
  \<^item> \<open>InstanceLog n l\<close>: \<^verbatim>\<open>fmt.Printf("[%s] %s\n", n, l)\<close>;
  \<^item> \<open>WentAway n\<close>: \<^verbatim>\<open>fmt.Printf("[%s] instance went away\n", n)\<close>;
  \<^item> \<open>WAFLine action rule time method path ip country agent\<close>: the
    \<^verbatim>\<open>"[WAF %s%s] %s %s %s - %s (%s) - %s\n"\<close> line of \<^verbatim>\<open>displayWAFRequests\<close>;
  \<^item> \<open>Errorf format args\<close>: the \<^verbatim>\<open>fmt.Printf(format+"\n", a...)\<close> of
    \<^verbatim>\<open>donef\<close>.
\<close>

datatype line =
    Println string
  | InstanceIs string string
  | NewInstance string string
  | InstanceNow string string
  | InstanceLog string string
  | WentAway string
  | WAFLine string string time string string string string string
  | Errorf string "string list"

text \<open>
  The lines that report a transition of an instance, as opposed to console logs, WAF
  requests, blank lines and error reports.
\<close>

fun is_transition :: "line \<Rightarrow> bool" where
  "is_transition (InstanceIs n p) = True"
| "is_transition (NewInstance n p) = True"
| "is_transition (InstanceNow n p) = True"
| "is_transition (WentAway n) = True"
| "is_transition (Println s) = False"
| "is_transition (InstanceLog n l) = False"
| "is_transition (WAFLine a r t m p c co u) = False"
| "is_transition (Errorf c args) = False"

text \<open>
  The local variables of a monitor function and the standard output it has written.
  \<^verbatim>\<open>waitForComputeWorkload\<close> has \<open>instanceStatus\<close> only,
  \<^verbatim>\<open>displayWAFRequests\<close> has \<open>mostRecentRequestTime\<close> only, and
  \<^verbatim>\<open>displayInstanceLogs\<close> has all three; a function leaves the fields it does
  not have untouched. The counter \<open>i\<close> is a Go \<^verbatim>\<open>int\<close>, 64 bits wide on the
  usual platforms, and \<^verbatim>\<open>i++\<close> wraps around.
\<close>

record monitor =
  instanceStatus :: "string \<rightharpoonup> string"
  i :: "64 word"
  mostRecentRequestTime :: time
  stdout :: "line list"

text \<open>
  How a run of a loop over the polls supplied so far stands: still looping, left by
  \<^verbatim>\<open>break\<close>, or ended by \<^verbatim>\<open>os.Exit(1)\<close> in \<^verbatim>\<open>donef\<close>.
\<close>

datatype status = Looping | Broke | Exited

section \<open>Helpers\<close>

text \<open>
  \<^verbatim>\<open>strings.ToLower\<close> on the ASCII letters. The phases of the API are upper-case
  ASCII words (\<^verbatim>\<open>RUNNING\<close>, \<^verbatim>\<open>STARTING\<close>, ...); the lower-casing of letters
  outside ASCII is not represented.
\<close>

definition lower_char :: "char \<Rightarrow> char" where
  "lower_char c =
     (let n = (of_char c :: nat) in if 65 \<le> n \<and> n \<le> 90 then char_of (n + 32) else c)"

definition ToLower :: "string \<Rightarrow> string" where
  "ToLower s = map lower_char s"

text \<open>
  Reading a Go \<^verbatim>\<open>map[string]string\<close>: \<^verbatim>\<open>m[k]\<close> is the empty string for a
  missing key, and the second result of \<^verbatim>\<open>v, found := m[k]\<close> tells whether the key
  is there.
\<close>

definition index :: "(string \<rightharpoonup> string) \<Rightarrow> string \<Rightarrow> string" where
  "index m k = (case m k of None \<Rightarrow> [] | Some v \<Rightarrow> v)"

definition found :: "(string \<rightharpoonup> string) \<Rightarrow> string \<Rightarrow> bool" where
  "found m k = (m k \<noteq> None)"

text \<open>
  \<^verbatim>\<open>donef\<close>: the formatted message, \<^verbatim>\<open>Done\<close>, an empty line, and then
  \<^verbatim>\<open>os.Exit(1)\<close>, which is the status \<open>Exited\<close> at every call.
\<close>

definition donef :: "string \<Rightarrow> string list \<Rightarrow> monitor \<Rightarrow> monitor" where
  "donef format args st =
     st\<lparr>stdout := stdout st @ [Errorf format args, Println ''Done'', Println '''']\<rparr>"

text \<open>
  The variables of a monitor function when its loop is entered, \<open>now\<close> being
  \<^verbatim>\<open>time.Now()\<close> at that moment: an empty map, the counter at zero, and a request
  time thirty days back (\<^verbatim>\<open>time.Now().Add(time.Hour * 24 * -30)\<close>).
\<close>

definition start :: "time \<Rightarrow> monitor" where
  "start now =
     \<lparr>instanceStatus = Map.empty, i = 0,
      mostRecentRequestTime = now + 3600 * Second * 24 * (- 30), stdout = []\<rparr>"

section \<open>The bring-up monitor: \<^verbatim>\<open>waitForComputeWorkload\<close>\<close>

text \<open>
  The body of \<^verbatim>\<open>for i, instance := range instances\<close> (lines 224 to 239), on the
  monitor and the flag \<^verbatim>\<open>allInstancesRunning\<close>.
\<close>

definition wait_instance :: "nat \<Rightarrow> Instance \<Rightarrow> monitor \<times> bool \<Rightarrow> monitor \<times> bool" where
  "wait_instance idx instance acc =
     (let st = fst acc; allInstancesRunning = snd acc;
          st1 = (if \<not> found (instanceStatus st) (Name instance)
                    \<or> index (instanceStatus st) (Name instance) \<noteq> Phase instance
                 then st\<lparr>stdout := stdout st @ (if idx = 0 then [Println ''''] else [])
                                   @ [InstanceIs (Name instance) (ToLower (Phase instance))],
                         instanceStatus := (instanceStatus st)(Name instance \<mapsto> Phase instance)\<rparr>
                 else st)
      in (st1, if Phase instance \<noteq> ''RUNNING'' then False else allInstancesRunning))"

fun wait_instances :: "nat \<Rightarrow> Instance list \<Rightarrow> monitor \<times> bool \<Rightarrow> monitor \<times> bool" where
  "wait_instances idx [] acc = acc"
| "wait_instances idx (instance # instances) acc =
     wait_instances (Suc idx) instances (wait_instance idx instance acc)"

text \<open>
  One turn of the \<^verbatim>\<open>for\<close> loop (lines 211 to 245) on the result of
  \<^verbatim>\<open>client.GetInstances\<close>. The spinner and the sleep are not represented.
\<close>

definition wait_cycle :: "error + Instance list \<Rightarrow> monitor \<Rightarrow> status \<times> monitor" where
  "wait_cycle fetch st =
     (case fetch of
        Inl err \<Rightarrow> (Exited, donef ''Error querying instance status: %s'' [err] st)
      | Inr instances \<Rightarrow>
          if length instances = 0 then (Looping, st)
          else (let r = wait_instances 0 instances (st, True)
                in if snd r \<and> length instances \<ge> 3 then (Broke, fst r) else (Looping, fst r)))"

text \<open>
  The loop on the results of the successive fetches. It has no bound of its own: with
  the polls exhausted the run is still \<open>Looping\<close>.
\<close>

fun wait_loop :: "(error + Instance list) list \<Rightarrow> monitor \<Rightarrow> status \<times> monitor" where
  "wait_loop [] st = (Looping, st)"
| "wait_loop (fetch # fetches) st =
     (case wait_cycle fetch st of
        (Looping, st') \<Rightarrow> wait_loop fetches st'
      | (Broke, st') \<Rightarrow> (Broke, st')
      | (Exited, st') \<Rightarrow> (Exited, st'))"

section \<open>The WAF monitor: \<^verbatim>\<open>displayWAFRequests\<close>\<close>

text \<open>
  The line printed for one request (lines 316 to 331): the rule name is shown after a
  colon when the request has one.
\<close>

definition waf_line :: "WAFRequest \<Rightarrow> line" where
  "waf_line request =
     (let fullRuleName = (if RuleName request \<noteq> [] then '': '' @ RuleName request else [])
      in WAFLine (Action request) fullRuleName (RequestTime request) (Method request)
           (Path request) (ClientIP request) (Country request) (UserAgent request))"

text \<open>
  The body of \<^verbatim>\<open>for i, request := range requests\<close> (lines 315 to 336); \<open>n\<close> is
  \<^verbatim>\<open>len(requests)\<close>.
\<close>

definition waf_request :: "nat \<Rightarrow> nat \<Rightarrow> WAFRequest \<Rightarrow> monitor \<Rightarrow> monitor" where
  "waf_request n idx request st =
     (let st1 = st\<lparr>stdout := stdout st @ [waf_line request]\<rparr>
      in if int idx = int n - 1
         then st1\<lparr>mostRecentRequestTime := RequestTime request + Second\<rparr>
         else st1)"

fun waf_requests :: "nat \<Rightarrow> nat \<Rightarrow> WAFRequest list \<Rightarrow> monitor \<Rightarrow> monitor" where
  "waf_requests n idx [] st = st"
| "waf_requests n idx (request # requests) st =
     waf_requests n (Suc idx) requests (waf_request n idx request st)"

text \<open>
  One turn of the loop (lines 309 to 339) on the result of
  \<^verbatim>\<open>client.GetWAFRequests(stack, site, mostRecentRequestTime)\<close>.
\<close>

definition waf_cycle :: "error + WAFRequest list \<Rightarrow> monitor \<Rightarrow> status \<times> monitor" where
  "waf_cycle fetch st =
     (case fetch of
        Inl err \<Rightarrow> (Exited, donef ''Error getting WAF requests: %s'' [err] st)
      | Inr requests \<Rightarrow> (Looping, waf_requests (length requests) 0 requests st))"

fun waf_loop :: "(error + WAFRequest list) list \<Rightarrow> monitor \<Rightarrow> status \<times> monitor" where
  "waf_loop [] st = (Looping, st)"
| "waf_loop (fetch # fetches) st =
     (case waf_cycle fetch st of
        (Looping, st') \<Rightarrow> waf_loop fetches st'
      | (Broke, st') \<Rightarrow> (Broke, st')
      | (Exited, st') \<Rightarrow> (Exited, st'))"

section \<open>The continuous monitor: \<^verbatim>\<open>displayInstanceLogs\<close>\<close>

text \<open>
  The tokens of a \<^verbatim>\<open>bufio.Scanner\<close> with its default split function
  \<^verbatim>\<open>ScanLines\<close>: the text is cut after every line feed, a last piece without line
  feed counts when it is not empty, one trailing carriage return is dropped from every
  line, and the scan stops at the first line that does not fit the scanner's buffer of
  65536 bytes.
\<close>

fun raw_lines :: "string \<Rightarrow> string \<Rightarrow> string list" where
  "raw_lines cur [] = (if cur = [] then [] else [rev cur])"
| "raw_lines cur (c # cs) =
     (if c = CHR 0x0A then rev cur # raw_lines [] cs else raw_lines (c # cur) cs)"

definition dropCR :: "string \<Rightarrow> string" where
  "dropCR l = (if l \<noteq> [] \<and> last l = CHR 0x0D then butlast l else l)"

definition scan_lines :: "string \<Rightarrow> string list" where
  "scan_lines text = map dropCR (takeWhile (\<lambda>l. length l < 65536) (raw_lines [] text))"

text \<open>
  The first half of the body of \<^verbatim>\<open>for _, instance := range instances\<close> (lines 356
  to 374): the status changes.
\<close>

definition display_status :: "Instance \<Rightarrow> monitor \<Rightarrow> monitor" where
  "display_status instance st =
     (if i st = 0
      then st\<lparr>instanceStatus := (instanceStatus st)(Name instance \<mapsto> Phase instance)\<rparr>
      else (let phase = index (instanceStatus st) (Name instance)
            in if \<not> found (instanceStatus st) (Name instance)
               then st\<lparr>stdout := stdout st @ [NewInstance (Name instance) (ToLower (Phase instance))],
                       instanceStatus := (instanceStatus st)(Name instance \<mapsto> Phase instance)\<rparr>
               else if phase \<noteq> Phase instance
               then st\<lparr>stdout := stdout st @ [InstanceNow (Name instance) (ToLower (Phase instance))],
                       instanceStatus := (instanceStatus st)(Name instance \<mapsto> Phase instance)\<rparr>
               else st))"

text \<open>
  The whole body (lines 356 to 386) for one instance, paired with the result of its
  \<^verbatim>\<open>client.GetInstanceLogs\<close> call.
\<close>

definition display_instance :: "Instance \<times> (error + string) \<Rightarrow> monitor \<Rightarrow> status \<times> monitor" where
  "display_instance item st =
     (let instance = fst item; st1 = display_status instance st
      in case snd item of
           Inl err \<Rightarrow> (Exited, donef ''Error querying %s instance logs: %s'' [Name instance, err] st1)
         | Inr logs \<Rightarrow>
             (Looping, st1\<lparr>stdout := stdout st1 @ map (InstanceLog (Name instance)) (scan_lines logs)\<rparr>))"

fun display_instances :: "(Instance \<times> (error + string)) list \<Rightarrow> monitor \<Rightarrow> status \<times> monitor" where
  "display_instances [] st = (Looping, st)"
| "display_instances (item # items) st =
     (case display_instance item st of
        (Looping, st') \<Rightarrow> display_instances items st'
      | (Broke, st') \<Rightarrow> (Broke, st')
      | (Exited, st') \<Rightarrow> (Exited, st'))"

text \<open>
  The inner loop of the check for instances that went away (lines 397 to 402), on the
  flag \<^verbatim>\<open>found\<close> and the map \<^verbatim>\<open>newInstanceStatus\<close>.
\<close>

fun check_name :: "string \<Rightarrow> Instance list \<Rightarrow> bool \<times> (string \<rightharpoonup> string) \<Rightarrow> bool \<times> (string \<rightharpoonup> string)" where
  "check_name checkName [] acc = acc"
| "check_name checkName (instance # instances) acc =
     check_name checkName instances
       (if checkName = Name instance then (True, (snd acc)(checkName \<mapsto> Phase instance)) else acc)"

text \<open>
  The outer loop (lines 394 to 407). Go visits the keys of a map in an order it does not
  specify, each key once: the order is the argument \<open>keys\<close>, and \<open>range_of\<close> says that
  it is an order of the keys of the map.
\<close>

fun went_away :: "string list \<Rightarrow> Instance list \<Rightarrow> (string \<rightharpoonup> string) \<times> line list \<Rightarrow> (string \<rightharpoonup> string) \<times> line list" where
  "went_away [] instances acc = acc"
| "went_away (checkName # keys) instances acc =
     (let r = check_name checkName instances (False, fst acc)
      in went_away keys instances
           (snd r, if \<not> fst r then snd acc @ [WentAway checkName] else snd acc))"

definition range_of :: "(string \<rightharpoonup> string) \<Rightarrow> string list \<Rightarrow> bool" where
  "range_of m keys = (distinct keys \<and> set keys = dom m)"

text \<open>
  What the environment gives to one turn of the loop: the result of
  \<^verbatim>\<open>client.GetInstances\<close> with, for every instance, the result of its
  \<^verbatim>\<open>client.GetInstanceLogs\<close> call; the order in which \<^verbatim>\<open>range instanceStatus\<close>
  visits the keys; and \<^verbatim>\<open>time.Now()\<close> at the end of the turn.
\<close>

record poll =
  fetched :: "error + (Instance \<times> (error + string)) list"
  keys :: "string list"
  now :: time

text \<open>One turn of the loop (lines 349 to 415).\<close>

definition display_cycle :: "poll \<Rightarrow> monitor \<Rightarrow> status \<times> monitor" where
  "display_cycle p st =
     (case fetched p of
        Inl err \<Rightarrow> (Exited, donef ''Error querying workload instances: %s'' [err] st)
      | Inr items \<Rightarrow>
          (case display_instances items st of
             (Looping, st1) \<Rightarrow>
               (let st2 = (if i st1 \<noteq> 0
                           then (let r = went_away (keys p) (map fst items) (Map.empty, stdout st1)
                                 in st1\<lparr>instanceStatus := fst r, stdout := snd r\<rparr>)
                           else st1)
                in (Looping, st2\<lparr>i := i st2 + 1, mostRecentRequestTime := now p\<rparr>))
           | (Broke, st1) \<Rightarrow> (Broke, st1)
           | (Exited, st1) \<Rightarrow> (Exited, st1)))"

fun display_loop :: "poll list \<Rightarrow> monitor \<Rightarrow> status \<times> monitor" where
  "display_loop [] st = (Looping, st)"
| "display_loop (p # ps) st =
     (case display_cycle p st of
        (Looping, st') \<Rightarrow> display_loop ps st'
      | (Broke, st') \<Rightarrow> (Broke, st')
      | (Exited, st') \<Rightarrow> (Exited, st'))"

section \<open>Notions used in the statements\<close>

text \<open>An instance with a given name and phase, for the examples.\<close>

definition instance_of :: "string \<Rightarrow> string \<Rightarrow> Instance" where
  "instance_of n p = \<lparr>Instance.ID = [], Name = n, Phase = p, IPAddress = [], ExternalIPAddress = []\<rparr>"

text \<open>
  The test that ends the loop of \<^verbatim>\<open>waitForComputeWorkload\<close>: at least three
  instances, all of them in phase \<^verbatim>\<open>RUNNING\<close>.
\<close>

definition ready :: "Instance list \<Rightarrow> bool" where
  "ready instances = (length instances \<ge> 3 \<and> (\<forall>x \<in> set instances. Phase x = ''RUNNING''))"

text \<open>No name of the list comes with two different phases.\<close>

definition same_phases :: "Instance list \<Rightarrow> bool" where
  "same_phases instances = (\<forall>x \<in> set instances. \<forall>y \<in> set instances. Name x = Name y \<longrightarrow> Phase x = Phase y)"

text \<open>A fetch that holds one name twice, pending and then running.\<close>

definition two_phases :: "Instance list" where
  "two_phases = [instance_of ''A'' ''PENDING'', instance_of ''A'' ''RUNNING'']"

text \<open>A fetch of two instances with different names.\<close>

definition two_names :: "Instance list" where
  "two_names = [instance_of ''A'' ''PENDING'', instance_of ''B'' ''RUNNING'']"

text \<open>A fetch of three running instances.\<close>

definition three_running :: "Instance list" where
  "three_running = [instance_of ''A'' ''RUNNING'', instance_of ''B'' ''RUNNING'', instance_of ''C'' ''RUNNING'']"

text \<open>
  What the WAF monitor expects of the API over a run of successful polls: every poll
  returns only requests at or after the time it was given, the \<open>mostRecentRequestTime\<close>
  of that moment, in ascending order of time.
\<close>

fun honest :: "WAFRequest list list \<Rightarrow> monitor \<Rightarrow> bool" where
  "honest [] st = True"
| "honest (requests # later) st =
     ((\<forall>r \<in> set requests. mostRecentRequestTime st \<le> RequestTime r)
      \<and> sorted (map RequestTime requests)
      \<and> honest later (snd (waf_cycle (Inr requests) st)))"

text \<open>A blocked request at a given time, for the examples.\<close>

definition request_at :: "time \<Rightarrow> WAFRequest" where
  "request_at t =
     \<lparr>ID = ''id'', Action = ''BLOCK'', Method = ''GET'', Path = ''/blockme'', ClientIP = ''192.0.2.1'',
      Country = ''NL'', UserAgent = ''curl'', RuleName = [], RequestTime = t\<rparr>"

text \<open>
  Two polls of the WAF monitor started at time \<open>0\<close>: three requests, then one
  request two seconds later.
\<close>

definition two_polls :: "WAFRequest list list" where
  "two_polls = [[request_at 1, request_at 2, request_at 3], [request_at 2000000000]]"

text \<open>The map after recording, in order, the phase of every instance of a list.\<close>

definition record_all :: "Instance list \<Rightarrow> (string \<rightharpoonup> string) \<Rightarrow> (string \<rightharpoonup> string)" where
  "record_all xs m = fold (\<lambda>x m. m(Name x \<mapsto> Phase x)) xs m"

text \<open>Every \<^verbatim>\<open>client.GetInstanceLogs\<close> call of a turn succeeds.\<close>

definition logs_ok :: "(Instance \<times> (error + string)) list \<Rightarrow> bool" where
  "logs_ok items = (\<forall>item \<in> set items. \<exists>logs. snd item = Inr logs)"

text \<open>The names of the instances a poll of the continuous monitor fetched.\<close>

definition fetched_names :: "poll \<Rightarrow> string set" where
  "fetched_names p = (case fetched p of Inl err \<Rightarrow> {} | Inr items \<Rightarrow> Name ` fst ` set items)"

text \<open>The lines that announce a given name as a new instance.\<close>

fun appeared :: "string \<Rightarrow> line \<Rightarrow> bool" where
  "appeared k (NewInstance n p) = (n = k)"
| "appeared k (Println s) = False"
| "appeared k (InstanceIs n p) = False"
| "appeared k (InstanceNow n p) = False"
| "appeared k (InstanceLog n l) = False"
| "appeared k (WentAway n) = False"
| "appeared k (WAFLine a r t m p c co u) = False"
| "appeared k (Errorf c args) = False"

text \<open>
  The monitor after the body of the loop of \<^verbatim>\<open>displayInstanceLogs\<close> for an instance
  whose logs were fetched.
\<close>

definition handled :: "Instance \<Rightarrow> string \<Rightarrow> monitor \<Rightarrow> monitor" where
  "handled x logs st =
     (display_status x st)\<lparr>stdout := stdout (display_status x st)
                                       @ map (InstanceLog (Name x)) (scan_lines logs)\<rparr>"

text \<open>
  The monitor after a first turn of \<^verbatim>\<open>displayInstanceLogs\<close> that saw the instance
  \<^verbatim>\<open>A\<close> in a given phase: the counter is at one.
\<close>

definition seen :: "string \<Rightarrow> monitor" where
  "seen phase =
     \<lparr>instanceStatus = [''A'' \<mapsto> phase], i = 1, mostRecentRequestTime = 0, stdout = []\<rparr>"

text \<open>A poll of the continuous monitor, for the examples.\<close>

definition poll_of :: "(Instance \<times> (error + string)) list \<Rightarrow> string list \<Rightarrow> poll" where
  "poll_of items ks = \<lparr>fetched = Inr items, keys = ks, now = 5\<rparr>"

section \<open>Properties\<close>

lemma wait_instance_changed:
  "instanceStatus st (Name x) \<noteq> Some (Phase x) \<Longrightarrow>
   fst (wait_instance idx x (st, b)) =
     st\<lparr>stdout := stdout st @ (if idx = 0 then [Println ''''] else [])
                     @ [InstanceIs (Name x) (ToLower (Phase x))],
        instanceStatus := (instanceStatus st)(Name x \<mapsto> Phase x)\<rparr>"
  by (cases "instanceStatus st (Name x)") (simp_all add: wait_instance_def found_def index_def Let_def)

lemma wait_instance_same:
  "instanceStatus st (Name x) = Some (Phase x) \<Longrightarrow> fst (wait_instance idx x (st, b)) = st"
  by (cases "instanceStatus st (Name x)") (simp_all add: wait_instance_def found_def index_def Let_def)

lemma wait_instance_flag:
  "snd (wait_instance idx x (st, b)) = (b \<and> Phase x = ''RUNNING'')"
  by (simp add: wait_instance_def Let_def)

lemma wait_instances_flag:
  "snd (wait_instances idx xs acc) = (snd acc \<and> (\<forall>x \<in> set xs. Phase x = ''RUNNING''))"
proof (induction xs arbitrary: idx acc)
  case Nil
  show ?case by simp
next
  case (Cons x xs)
  have "snd (wait_instance idx x acc) = (snd acc \<and> Phase x = ''RUNNING'')"
    using wait_instance_flag [of idx x "fst acc" "snd acc"] by simp
  with Cons show ?case by auto
qed

lemma wait_instances_fixed:
  "\<forall>x \<in> set xs. instanceStatus st (Name x) = Some (Phase x) \<Longrightarrow>
   fst (wait_instances idx xs (st, b)) = st"
proof (induction xs arbitrary: idx b)
  case Nil
  show ?case by simp
next
  case (Cons x xs)
  have "wait_instance idx x (st, b) = (st, b \<and> Phase x = ''RUNNING'')"
    using Cons.prems wait_instance_same [of st x idx b] wait_instance_flag [of idx x st b]
    by (simp add: prod_eq_iff)
  with Cons show ?case by simp
qed

lemma wait_instance_map:
  "instanceStatus (fst (wait_instance idx x acc)) = (instanceStatus (fst acc))(Name x \<mapsto> Phase x)"
proof (cases "instanceStatus (fst acc) (Name x) = Some (Phase x)")
  case True
  then have "fst (wait_instance idx x (fst acc, snd acc)) = fst acc" by (rule wait_instance_same)
  with True show ?thesis by (simp add: fun_upd_idem)
next
  case False
  then show ?thesis using wait_instance_changed [of "fst acc" x idx "snd acc"] by simp
qed

lemma wait_instances_map:
  "instanceStatus (fst (wait_instances idx xs acc)) =
   fold (\<lambda>x m. m(Name x \<mapsto> Phase x)) xs (instanceStatus (fst acc))"
proof (induction xs arbitrary: idx acc)
  case Nil
  show ?case by simp
next
  case (Cons x xs)
  show ?case using Cons.IH [of "Suc idx" "wait_instance idx x acc"]
    by (simp add: wait_instance_map)
qed

lemma fold_keeps:
  "m k = Some v \<Longrightarrow> \<forall>z \<in> set ys. Name z = k \<longrightarrow> Phase z = v \<Longrightarrow>
   fold (\<lambda>x m. m(Name x \<mapsto> Phase x)) ys m k = Some v"
proof (induction ys arbitrary: m)
  case Nil
  then show ?case by simp
next
  case (Cons y ys)
  have "(m(Name y \<mapsto> Phase y)) k = Some v" using Cons.prems by simp
  moreover have "\<forall>z \<in> set ys. Name z = k \<longrightarrow> Phase z = v" using Cons.prems by simp
  ultimately show ?case using Cons.IH by simp
qed

lemma fold_other:
  "k \<notin> Name ` set ys \<Longrightarrow> fold (\<lambda>x m. m(Name x \<mapsto> Phase x)) ys m k = m k"
proof (induction ys arbitrary: m)
  case Nil
  show ?case by simp
next
  case (Cons y ys)
  then show ?case by simp
qed

lemma fold_same_phases:
  "same_phases xs \<Longrightarrow> x \<in> set xs \<Longrightarrow>
   fold (\<lambda>x m. m(Name x \<mapsto> Phase x)) xs m (Name x) = Some (Phase x)"
proof (induction xs arbitrary: m)
  case Nil
  then show ?case by simp
next
  case (Cons y ys)
  have sp: "same_phases ys" using Cons.prems(1) unfolding same_phases_def by (meson list.set_intros(2))
  show ?case
  proof (cases "x \<in> set ys")
    case True
    with Cons.IH sp show ?thesis by simp
  next
    case False
    with Cons.prems have xy: "x = y" by simp
    have "\<forall>z \<in> set ys. Name z = Name y \<longrightarrow> Phase z = Phase y"
      using Cons.prems(1) unfolding same_phases_def by (meson list.set_intros)
    then have "fold (\<lambda>x m. m(Name x \<mapsto> Phase x)) ys (m(Name y \<mapsto> Phase y)) (Name y) = Some (Phase y)"
      by (intro fold_keeps) simp_all
    then show ?thesis unfolding xy by (simp only: fold_simps comp_apply)
  qed
qed

lemma wait_cycle_Inr:
  "instances \<noteq> [] \<Longrightarrow>
   snd (wait_cycle (Inr instances) st) = fst (wait_instances 0 instances (st, True))"
  by (simp add: wait_cycle_def Let_def)

lemma wait_cycle_repeat:
  assumes "same_phases instances"
  shows "snd (wait_cycle (Inr instances) (snd (wait_cycle (Inr instances) st))) =
         snd (wait_cycle (Inr instances) st)"
proof (cases "instances = []")
  case True
  then show ?thesis by (simp add: wait_cycle_def)
next
  case False
  define st1 where "st1 = fst (wait_instances 0 instances (st, True))"
  have s1: "snd (wait_cycle (Inr instances) st) = st1"
    using False by (simp add: wait_cycle_Inr st1_def)
  have "\<forall>x \<in> set instances. instanceStatus st1 (Name x) = Some (Phase x)"
    using assms by (simp add: st1_def wait_instances_map fold_same_phases)
  then have "fst (wait_instances 0 instances (st1, True)) = st1"
    by (rule wait_instances_fixed)
  then have "snd (wait_cycle (Inr instances) st1) = st1"
    using False by (simp add: wait_cycle_Inr)
  with s1 show ?thesis by simp
qed

lemma wait_cycle_Broke:
  "(fst (wait_cycle (Inr instances) st) = Broke) = ready instances"
  by (simp add: wait_cycle_def ready_def Let_def wait_instances_flag)

lemma wait_instances_append:
  "wait_instances idx (xs @ ys) acc = wait_instances (idx + length xs) ys (wait_instances idx xs acc)"
proof (induction xs arbitrary: idx acc)
  case Nil
  show ?case by simp
next
  case (Cons x xs)
  show ?case using Cons.IH [of "Suc idx" "wait_instance idx x acc"] by simp
qed

lemma ToLower_PENDING: "ToLower ''PENDING'' = ''pending''"
  by code_simp

lemma ToLower_RUNNING: "ToLower ''RUNNING'' = ''running''"
  by code_simp

lemma wait_pair:
  assumes "Name a = Name b" "Phase a \<noteq> Phase b" "instanceStatus st (Name a) \<noteq> Some (Phase a)"
  shows "wait_cycle (Inr [a, b]) st =
     (Looping, st\<lparr>stdout := stdout st @ [Println '''', InstanceIs (Name a) (ToLower (Phase a)),
                                         InstanceIs (Name a) (ToLower (Phase b))],
                   instanceStatus := (instanceStatus st)(Name a \<mapsto> Phase b)\<rparr>)"
proof -
  let ?st1 = "st\<lparr>stdout := stdout st @ [Println '''', InstanceIs (Name a) (ToLower (Phase a))],
                 instanceStatus := (instanceStatus st)(Name a \<mapsto> Phase a)\<rparr>"
  have 1: "fst (wait_instance 0 a (st, True)) = ?st1"
    using wait_instance_changed [OF assms(3), of 0 True] by simp
  have "instanceStatus ?st1 (Name b) \<noteq> Some (Phase b)" using assms by simp
  from wait_instance_changed [OF this, of 1 "Phase a = ''RUNNING''"]
  have 2: "fst (wait_instance 1 b (?st1, Phase a = ''RUNNING'')) =
      st\<lparr>stdout := stdout st @ [Println '''', InstanceIs (Name a) (ToLower (Phase a)),
                                   InstanceIs (Name a) (ToLower (Phase b))],
         instanceStatus := (instanceStatus st)(Name a \<mapsto> Phase b)\<rparr>"
    using assms(1) by simp
  have 3: "wait_instance 0 a (st, True) = (?st1, Phase a = ''RUNNING'')"
    using 1 wait_instance_flag [of 0 a st True] by (simp add: prod_eq_iff)
  show ?thesis
    using 2 3 by (simp add: wait_cycle_def Let_def)
qed

lemma wait_pair_A:
  "instanceStatus st ''A'' \<noteq> Some ''PENDING'' \<Longrightarrow>
   wait_cycle (Inr two_phases) st =
     (Looping, st\<lparr>stdout := stdout st @ [Println '''', InstanceIs ''A'' ''pending'', InstanceIs ''A'' ''running''],
                   instanceStatus := (instanceStatus st)(''A'' \<mapsto> ''RUNNING'')\<rparr>)"
  using wait_pair [of "instance_of ''A'' ''PENDING''" "instance_of ''A'' ''RUNNING''" st]
  by (simp add: two_phases_def instance_of_def ToLower_PENDING ToLower_RUNNING)

text \<open>
  Claim C1, as amended. In a turn of the bring-up monitor on a fetched list
  \<open>pre @ x # post\<close>, the item \<open>x\<close> is handled in the state left by the items before
  it. Handling an item prints exactly one line \<^verbatim>\<open>| Instance "name" is phase\<close> (after an
  empty line when the item is the first of the list) and records the phase under the name
  if and only if the name is not in the map or is recorded with another phase; otherwise
  it prints nothing and changes nothing. When no name of the list comes with two
  different phases, a second turn on the same list prints nothing and leaves the map as
  it is.
\<close>

theorem wait_diff_rule:
  "snd (wait_cycle (Inr (pre @ x # post)) st) =
     fst (wait_instances (Suc (length pre)) post
            (wait_instance (length pre) x (wait_instances 0 pre (st, True))))
   \<and> fst (wait_instance idx x (s, b)) =
       (if instanceStatus s (Name x) \<noteq> Some (Phase x)
        then s\<lparr>stdout := stdout s @ (if idx = 0 then [Println ''''] else [])
                           @ [InstanceIs (Name x) (ToLower (Phase x))],
               instanceStatus := (instanceStatus s)(Name x \<mapsto> Phase x)\<rparr>
        else s)
   \<and> (same_phases instances \<longrightarrow>
        snd (wait_cycle (Inr instances) (snd (wait_cycle (Inr instances) st))) =
        snd (wait_cycle (Inr instances) st))"
proof (intro conjI impI)
  have "pre @ x # post \<noteq> []" by simp
  then have "snd (wait_cycle (Inr (pre @ x # post)) st) =
      fst (wait_instances 0 (pre @ x # post) (st, True))"
    by (rule wait_cycle_Inr)
  then show "snd (wait_cycle (Inr (pre @ x # post)) st) =
     fst (wait_instances (Suc (length pre)) post
            (wait_instance (length pre) x (wait_instances 0 pre (st, True))))"
    by (simp add: wait_instances_append)
next
  show "fst (wait_instance idx x (s, b)) =
       (if instanceStatus s (Name x) \<noteq> Some (Phase x)
        then s\<lparr>stdout := stdout s @ (if idx = 0 then [Println ''''] else [])
                           @ [InstanceIs (Name x) (ToLower (Phase x))],
               instanceStatus := (instanceStatus s)(Name x \<mapsto> Phase x)\<rparr>
        else s)"
  proof (cases "instanceStatus s (Name x) = Some (Phase x)")
    case True
    then show ?thesis using wait_instance_same [of s x idx b] by simp
  next
    case False
    then show ?thesis using wait_instance_changed [of s x idx b] by simp
  qed
next
  assume "same_phases instances"
  then show "snd (wait_cycle (Inr instances) (snd (wait_cycle (Inr instances) st))) =
        snd (wait_cycle (Inr instances) st)"
    by (rule wait_cycle_repeat)
qed

theorem wait_diff_rule_witness:
  "same_phases two_names
   \<and> snd (wait_cycle (Inr two_names) (snd (wait_cycle (Inr two_names) (start 0)))) =
     snd (wait_cycle (Inr two_names) (start 0))"
proof -
  have h: "same_phases two_names"
    by (simp add: same_phases_def two_names_def instance_of_def)
  show ?thesis
    using h wait_diff_rule [of "[]" "instance_of ''A'' ''PENDING''" "[]" "start 0" 0
        "start 0" True two_names, THEN conjunct2, THEN conjunct2, rule_format, OF h]
    by simp
qed

text \<open>
  The claim as stated fails: a list that holds the name \<^verbatim>\<open>A\<close> twice, pending and then
  running, fetched a second time without any change, prints two transition lines again.
\<close>

theorem wait_repeat_counterexample:
  "stdout (snd (wait_cycle (Inr two_phases) (snd (wait_cycle (Inr two_phases) (start 0))))) =
   stdout (snd (wait_cycle (Inr two_phases) (start 0))) @
     [Println '''', InstanceIs ''A'' ''pending'', InstanceIs ''A'' ''running'']"
  by (simp add: wait_pair_A start_def)

text \<open>
  Claim C10. A fetch that holds one name twice, with two different phases, the first of
  them not the recorded one, makes the bring-up monitor print two transition lines for
  that name in a single turn, and the map ends with the phase of the last occurrence.
\<close>

theorem wait_duplicate_key:
  assumes "Name a = Name b" and "Phase a \<noteq> Phase b"
    and "instanceStatus st (Name a) \<noteq> Some (Phase a)"
  shows "wait_cycle (Inr [a, b]) st =
     (Looping, st\<lparr>stdout := stdout st @ [Println '''', InstanceIs (Name a) (ToLower (Phase a)),
                                         InstanceIs (Name a) (ToLower (Phase b))],
                   instanceStatus := (instanceStatus st)(Name a \<mapsto> Phase b)\<rparr>)"
  using assms by (rule wait_pair)

theorem wait_duplicate_key_witness:
  "Name (instance_of ''A'' ''PENDING'') = Name (instance_of ''A'' ''RUNNING'')
   \<and> Phase (instance_of ''A'' ''PENDING'') \<noteq> Phase (instance_of ''A'' ''RUNNING'')
   \<and> instanceStatus (start 0) (Name (instance_of ''A'' ''PENDING'')) \<noteq> Some (Phase (instance_of ''A'' ''PENDING''))
   \<and> wait_cycle (Inr [instance_of ''A'' ''PENDING'', instance_of ''A'' ''RUNNING'']) (start 0) =
     (Looping, (start 0)\<lparr>stdout := [Println '''', InstanceIs ''A'' ''pending'', InstanceIs ''A'' ''running''],
                          instanceStatus := [''A'' \<mapsto> ''RUNNING'']\<rparr>)"
  using wait_duplicate_key [of "instance_of ''A'' ''PENDING''" "instance_of ''A'' ''RUNNING''" "start 0"]
  by (simp add: instance_of_def ToLower_PENDING ToLower_RUNNING start_def)

lemma wait_loop_Looping:
  "\<forall>f \<in> set pre. \<exists>xs. f = Inr xs \<and> \<not> ready xs \<Longrightarrow> fst (wait_loop pre st) = Looping"
proof (induction pre arbitrary: st)
  case Nil
  show ?case by simp
next
  case (Cons f fs)
  from Cons.prems obtain xs where f: "f = Inr xs" and nr: "\<not> ready xs" by auto
  from nr have "fst (wait_cycle (Inr xs) st) \<noteq> Broke" by (simp add: wait_cycle_Broke)
  moreover have "fst (wait_cycle (Inr xs) st) \<noteq> Exited" by (simp add: wait_cycle_def Let_def)
  ultimately have "fst (wait_cycle (Inr xs) st) = Looping" by (cases "fst (wait_cycle (Inr xs) st)") simp_all
  then obtain st' where c: "wait_cycle f st = (Looping, st')"
    using f by (cases "wait_cycle f st") simp
  have "fst (wait_loop fs st') = Looping" using Cons by simp
  then show ?case using c by simp
qed

lemma wait_loop_append:
  "fst (wait_loop pre st) = Looping \<Longrightarrow>
   wait_loop (pre @ post) st = wait_loop post (snd (wait_loop pre st))"
proof (induction pre arbitrary: st)
  case Nil
  show ?case by simp
next
  case (Cons f fs)
  show ?case
  proof (cases "wait_cycle f st")
    case (Pair s st')
    show ?thesis
    proof (cases s)
      case Looping
      with Pair Cons show ?thesis by simp
    next
      case Broke
      with Pair Cons.prems show ?thesis by simp
    next
      case Exited
      with Pair Cons.prems show ?thesis by simp
    qed
  qed
qed

lemma wait_loop_single:
  "fst (wait_cycle f st) \<noteq> Looping \<Longrightarrow> wait_loop (f # rest) st = wait_cycle f st"
  by (cases "wait_cycle f st"; cases "fst (wait_cycle f st)") simp_all

text \<open>
  Claim C3. Whatever the fetches return, the loop of the bring-up monitor is left by
  \<^verbatim>\<open>break\<close> right after the first poll whose list holds at least three instances, all
  of them in phase \<^verbatim>\<open>RUNNING\<close>: the result is that of this poll's turn, whatever the
  later fetches would return, and after every earlier poll the loop is still running.
  The earlier polls are fetches that succeeded; a fetch that fails ends the process, which
  is claim C9.
\<close>

theorem wait_terminates:
  assumes "\<forall>f \<in> set pre. \<exists>xs. f = Inr xs \<and> \<not> ready xs" and "ready instances"
  shows "fst (wait_loop (pre @ Inr instances # rest) st) = Broke
       \<and> wait_loop (pre @ Inr instances # rest) st = wait_cycle (Inr instances) (snd (wait_loop pre st))
       \<and> (\<forall>n \<le> length pre. fst (wait_loop (take n pre) st) = Looping)"
proof -
  have l: "fst (wait_loop pre st) = Looping" using assms(1) by (rule wait_loop_Looping)
  have b: "fst (wait_cycle (Inr instances) (snd (wait_loop pre st))) = Broke"
    using assms(2) by (simp add: wait_cycle_Broke)
  have "wait_loop (Inr instances # rest) (snd (wait_loop pre st)) =
        wait_cycle (Inr instances) (snd (wait_loop pre st))"
    by (rule wait_loop_single) (simp add: b)
  then have e: "wait_loop (pre @ Inr instances # rest) st = wait_cycle (Inr instances) (snd (wait_loop pre st))"
    using wait_loop_append [OF l] by simp
  have "fst (wait_loop (take n pre) st) = Looping" for n
  proof (rule wait_loop_Looping)
    show "\<forall>f \<in> set (take n pre). \<exists>xs. f = Inr xs \<and> \<not> ready xs"
      using assms(1) by (meson in_set_takeD)
  qed
  with e b show ?thesis by simp
qed

theorem wait_terminates_witness:
  "\<not> ready [] \<and> \<not> ready [instance_of ''A'' ''PENDING'']
   \<and> ready three_running
   \<and> fst (wait_loop ([Inr [], Inr [instance_of ''A'' ''PENDING'']] @ Inr three_running # [Inl ''timeout'']) (start 0)) = Broke
   \<and> fst (wait_loop (take 2 [Inr [], Inr [instance_of ''A'' ''PENDING'']]) (start 0)) = Looping"
proof -
  have h1: "\<forall>f \<in> set [Inr [], Inr [instance_of ''A'' ''PENDING'']]. \<exists>xs. f = Inr xs \<and> \<not> ready xs"
    by (simp add: ready_def)
  have h2: "ready three_running"
    by (simp add: ready_def three_running_def instance_of_def)
  note t = wait_terminates [OF h1 h2, of "[Inl ''timeout'']" "start 0"]
  have c: "fst (wait_loop ([Inr [], Inr [instance_of ''A'' ''PENDING'']] @ Inr three_running # [Inl ''timeout'']) (start 0)) = Broke"
    by (rule t [THEN conjunct1])
  have d: "fst (wait_loop (take 2 [Inr [], Inr [instance_of ''A'' ''PENDING'']]) (start 0)) = Looping"
    using t [THEN conjunct2, THEN conjunct2, rule_format, of 2] by simp
  have n: "\<not> ready []" "\<not> ready [instance_of ''A'' ''PENDING'']"
    by (simp_all add: ready_def)
  show ?thesis by (intro conjI n h2 c d)
qed

lemma waf_requests_eq:
  "n = idx + length rs \<Longrightarrow>
   waf_requests n idx rs st =
     st\<lparr>stdout := stdout st @ map waf_line rs,
        mostRecentRequestTime :=
          (if rs = [] then mostRecentRequestTime st else RequestTime (last rs) + Second)\<rparr>"
proof (induction rs arbitrary: idx st)
  case Nil
  show ?case by simp
next
  case (Cons r rs)
  have n: "n = Suc idx + length rs" using Cons.prems by simp
  show ?case
  proof (cases "rs = []")
    case True
    then have "int idx = int n - 1" using Cons.prems by simp
    then show ?thesis using True by (simp add: waf_request_def Let_def)
  next
    case False
    then have "int idx \<noteq> int n - 1" using Cons.prems by (cases rs) auto
    then have "waf_request n idx r st = st\<lparr>stdout := stdout st @ [waf_line r]\<rparr>"
      by (simp add: waf_request_def Let_def)
    then show ?thesis using False Cons.IH [OF n] by simp
  qed
qed

lemma waf_cycle_Inr:
  "waf_cycle (Inr rs) st =
     (Looping, st\<lparr>stdout := stdout st @ map waf_line rs,
                   mostRecentRequestTime :=
                     (if rs = [] then mostRecentRequestTime st else RequestTime (last rs) + Second)\<rparr>)"
  by (simp add: waf_cycle_def waf_requests_eq)

lemma waf_cycle_time:
  "mostRecentRequestTime (snd (waf_cycle (Inr rs) st)) =
     (if rs = [] then mostRecentRequestTime st else RequestTime (last rs) + Second)"
  by (simp add: waf_cycle_Inr)

lemma waf_cycle_mono:
  assumes "\<forall>r \<in> set rs. mostRecentRequestTime st \<le> RequestTime r"
  shows "mostRecentRequestTime st \<le> mostRecentRequestTime (snd (waf_cycle (Inr rs) st))"
proof (cases "rs = []")
  case True
  then show ?thesis by (simp add: waf_cycle_time)
next
  case False
  then have "last rs \<in> set rs" by simp
  with assms have "mostRecentRequestTime st \<le> RequestTime (last rs)" by blast
  then show ?thesis using False by (simp add: waf_cycle_time Second_def)
qed

lemma honest_later:
  "honest rss st \<Longrightarrow> rs \<in> set rss \<Longrightarrow> r \<in> set rs \<Longrightarrow> mostRecentRequestTime st \<le> RequestTime r"
proof (induction rss arbitrary: st)
  case Nil
  then show ?case by simp
next
  case (Cons a rss)
  have a: "\<forall>r \<in> set a. mostRecentRequestTime st \<le> RequestTime r" using Cons.prems(1) by simp
  show ?case
  proof (cases "rs = a")
    case True
    with a Cons.prems(3) show ?thesis by blast
  next
    case False
    with Cons.prems(2) have "rs \<in> set rss" by simp
    moreover have "honest rss (snd (waf_cycle (Inr a) st))" using Cons.prems(1) by simp
    ultimately have "mostRecentRequestTime (snd (waf_cycle (Inr a) st)) \<le> RequestTime r"
      using Cons.IH Cons.prems(3) by blast
    with waf_cycle_mono [OF a] show ?thesis by linarith
  qed
qed

lemma sorted_le_last:
  "sorted (map RequestTime rs) \<Longrightarrow> r \<in> set rs \<Longrightarrow> RequestTime r \<le> RequestTime (last rs)"
proof (induction rs)
  case Nil
  then show ?case by simp
next
  case (Cons a rs)
  show ?case
  proof (cases "rs = []")
    case True
    with Cons.prems show ?thesis by simp
  next
    case False
    then have l: "last rs \<in> set rs" by simp
    show ?thesis
    proof (cases "r = a")
      case True
      with Cons.prems(1) l False show ?thesis by simp
    next
      case ne: False
      with Cons.prems have "r \<in> set rs" by simp
      with Cons False show ?thesis by simp
    qed
  qed
qed

lemma honest_next:
  assumes "honest (rs # rss) st" and "r \<in> set rs" and "rs' \<in> set rss" and "r' \<in> set rs'"
  shows "RequestTime r < RequestTime (last rs) + Second"
    and "RequestTime (last rs) + Second \<le> RequestTime r'"
proof -
  have ne: "rs \<noteq> []" using assms(2) by auto
  have "sorted (map RequestTime rs)" using assms(1) by simp
  then have "RequestTime r \<le> RequestTime (last rs)" using assms(2) by (rule sorted_le_last)
  then show "RequestTime r < RequestTime (last rs) + Second" by (simp add: Second_def)
  have "honest rss (snd (waf_cycle (Inr rs) st))" using assms(1) by simp
  then have "mostRecentRequestTime (snd (waf_cycle (Inr rs) st)) \<le> RequestTime r'"
    using assms(3,4) by (rule honest_later)
  then show "RequestTime (last rs) + Second \<le> RequestTime r'"
    using ne by (simp add: waf_cycle_time)
qed

lemma waf_loop_Inr:
  "waf_loop (map Inr rss) st =
     (Looping, snd (waf_loop (map Inr rss) st))
   \<and> stdout (snd (waf_loop (map Inr rss) st)) = stdout st @ map waf_line (concat rss)"
proof (induction rss arbitrary: st)
  case Nil
  show ?case by simp
next
  case (Cons rs rss)
  show ?case using Cons.IH [of "snd (waf_cycle (Inr rs) st)"]
    by (simp add: waf_cycle_Inr)
qed

lemma waf_loop_append:
  "waf_loop (map Inr (pre @ post)) st = waf_loop (map Inr post) (snd (waf_loop (map Inr pre) st))"
proof (induction pre arbitrary: st)
  case Nil
  show ?case by simp
next
  case (Cons rs pre)
  show ?case using Cons.IH [of "snd (waf_cycle (Inr rs) st)"]
    by (simp add: waf_cycle_Inr)
qed

lemma honest_append:
  "honest (pre @ post) st \<Longrightarrow> honest post (snd (waf_loop (map Inr pre) st))"
proof (induction pre arbitrary: st)
  case Nil
  then show ?case by simp
next
  case (Cons rs pre)
  have "honest (pre @ post) (snd (waf_cycle (Inr rs) st))" using Cons.prems by simp
  then have "honest post (snd (waf_loop (map Inr pre) (snd (waf_cycle (Inr rs) st))))"
    by (rule Cons.IH)
  then show ?case by (simp add: waf_cycle_Inr)
qed

lemma honest_two_polls: "honest two_polls (start 0)"
  by (simp add: two_polls_def waf_cycle_time request_at_def start_def Second_def)

lemma honest_apart:
  assumes "honest (pre @ rs # post) st" and "r \<in> set rs" and "rs' \<in> set post" and "r' \<in> set rs'"
  shows "RequestTime r < RequestTime r'" and "RequestTime (last rs) + Second \<le> RequestTime r'"
proof -
  have h: "honest (rs # post) (snd (waf_loop (map Inr pre) st))"
    using assms(1) by (rule honest_append)
  from honest_next [OF h assms(2,3,4)]
  show "RequestTime r < RequestTime r'" and "RequestTime (last rs) + Second \<le> RequestTime r'"
    by simp_all
qed

lemma honest_distinct:
  "honest rss st \<Longrightarrow> \<forall>rs \<in> set rss. distinct rs \<Longrightarrow> distinct (concat rss)"
proof (induction rss arbitrary: st)
  case Nil
  show ?case by simp
next
  case (Cons rs rss)
  have "honest rss (snd (waf_cycle (Inr rs) st))" using Cons.prems(1) by simp
  then have d: "distinct (concat rss)" using Cons.IH Cons.prems(2) by simp
  have "r \<noteq> r'" if "r \<in> set rs" and "rs' \<in> set rss" and "r' \<in> set rs'" for r rs' r'
    using honest_apart(1) [of "[]" rs rss st r rs' r'] Cons.prems(1) that by auto
  then have "set rs \<inter> set (concat rss) = {}" by auto
  with d Cons.prems(2) show ?case by simp
qed

text \<open>
  Claim C2. A turn of the WAF monitor on a successful fetch prints the fetched requests
  and sets the time of the next query to one second after the time of the last request
  when there is one, and leaves it as it is when the fetch is empty. So three requests
  returned by one poll leave the time at that of the third plus one second, and when the
  API returns only requests at or after the time it is given, in ascending order, every
  request of every later poll is at or after that time and is none of the three.
\<close>

theorem waf_watermark:
  "waf_cycle (Inr requests) st =
     (Looping, st\<lparr>stdout := stdout st @ map waf_line requests,
                   mostRecentRequestTime :=
                     (if requests = [] then mostRecentRequestTime st
                      else RequestTime (last requests) + Second)\<rparr>)
   \<and> mostRecentRequestTime (snd (waf_cycle (Inr [r1, r2, r3]) st)) = RequestTime r3 + Second
   \<and> (honest (pre @ [r1, r2, r3] # post) st \<longrightarrow>
        mostRecentRequestTime (snd (waf_loop (map Inr (pre @ [[r1, r2, r3]])) st)) =
          RequestTime r3 + Second
        \<and> (\<forall>rs' \<in> set post. \<forall>r' \<in> set rs'.
              RequestTime r3 + Second \<le> RequestTime r' \<and> r' \<noteq> r1 \<and> r' \<noteq> r2 \<and> r' \<noteq> r3))"
proof (intro conjI impI ballI)
  show "waf_cycle (Inr requests) st =
     (Looping, st\<lparr>stdout := stdout st @ map waf_line requests,
                   mostRecentRequestTime :=
                     (if requests = [] then mostRecentRequestTime st
                      else RequestTime (last requests) + Second)\<rparr>)"
    by (rule waf_cycle_Inr)
  show "mostRecentRequestTime (snd (waf_cycle (Inr [r1, r2, r3]) st)) = RequestTime r3 + Second"
    by (simp add: waf_cycle_time)
next
  assume "honest (pre @ [r1, r2, r3] # post) st"
  show "mostRecentRequestTime (snd (waf_loop (map Inr (pre @ [[r1, r2, r3]])) st)) =
          RequestTime r3 + Second"
    using waf_loop_append [of pre "[[r1, r2, r3]]" st] by (simp add: waf_cycle_Inr)
next
  fix rs' r'
  assume h: "honest (pre @ [r1, r2, r3] # post) st" and m: "rs' \<in> set post" "r' \<in> set rs'"
  have lt: "RequestTime r < RequestTime r'" if "r \<in> set [r1, r2, r3]" for r
    using honest_apart(1) [OF h that m] .
  show "RequestTime r3 + Second \<le> RequestTime r'"
    using honest_apart(2) [OF h _ m, of r3] by simp
  show "r' \<noteq> r1" using lt [of r1] by auto
  show "r' \<noteq> r2" using lt [of r2] by auto
  show "r' \<noteq> r3" using lt [of r3] by auto
qed

theorem waf_watermark_witness:
  "honest ([] @ [request_at 1, request_at 2, request_at 3] # [[request_at 2000000000]]) (start 0)
   \<and> mostRecentRequestTime
       (snd (waf_loop (map Inr ([] @ [[request_at 1, request_at 2, request_at 3]])) (start 0))) =
     1000000003
   \<and> request_at 2000000000 \<noteq> request_at 3"
proof -
  have h: "honest ([] @ [request_at 1, request_at 2, request_at 3] # [[request_at 2000000000]]) (start 0)"
    using honest_two_polls by (simp add: two_polls_def)
  note t = waf_watermark [of "[]" "start 0" "request_at 1" "request_at 2" "request_at 3"
      "[]" "[[request_at 2000000000]]", THEN conjunct2, THEN conjunct2, rule_format, OF h]
  have a: "mostRecentRequestTime
       (snd (waf_loop (map Inr ([] @ [[request_at 1, request_at 2, request_at 3]])) (start 0))) =
     1000000003"
    using t [THEN conjunct1] by (simp add: request_at_def Second_def)
  have b: "request_at 2000000000 \<noteq> request_at 3"
    using t [THEN conjunct2, rule_format, of "[request_at 2000000000]" "request_at 2000000000"]
    by simp
  show ?thesis by (intro conjI h a b)
qed

text \<open>
  Claim C7. When the API returns, at every poll, only requests at or after the time it
  is given, in ascending order, the WAF monitor keeps running and its output is one line
  for each returned request, in the order of their return: the turn of a poll prints the
  requests of that poll, each once, and every request of an earlier poll is strictly older
  than every request of a later poll, so that no later poll returns it and no later turn
  prints it. When no single poll lists a request twice, no request occurs twice in the
  whole run.
\<close>

theorem waf_exactly_once:
  assumes "honest rss st"
  shows "waf_loop (map Inr rss) st = (Looping, snd (waf_loop (map Inr rss) st))
       \<and> stdout (snd (waf_loop (map Inr rss) st)) = stdout st @ map waf_line (concat rss)
       \<and> (\<forall>pre rs post. rss = pre @ rs # post \<longrightarrow>
            stdout (snd (waf_loop (map Inr (pre @ [rs])) st)) =
              stdout (snd (waf_loop (map Inr pre) st)) @ map waf_line rs
            \<and> (\<forall>r \<in> set rs. \<forall>rs' \<in> set post. \<forall>r' \<in> set rs'.
                  RequestTime r < RequestTime r' \<and> r' \<noteq> r))
       \<and> ((\<forall>rs \<in> set rss. distinct rs) \<longrightarrow> distinct (concat rss))"
proof (intro conjI allI impI ballI)
  show "waf_loop (map Inr rss) st = (Looping, snd (waf_loop (map Inr rss) st))"
    using waf_loop_Inr [of rss st] by simp
  show "stdout (snd (waf_loop (map Inr rss) st)) = stdout st @ map waf_line (concat rss)"
    using waf_loop_Inr [of rss st] by simp
next
  fix pre rs post
  show "stdout (snd (waf_loop (map Inr (pre @ [rs])) st)) =
              stdout (snd (waf_loop (map Inr pre) st)) @ map waf_line rs"
    using waf_loop_append [of pre "[rs]" st] by (simp add: waf_cycle_Inr)
next
  fix pre rs post r rs' r'
  assume e: "rss = pre @ rs # post" and m: "r \<in> set rs" "rs' \<in> set post" "r' \<in> set rs'"
  have h: "honest (pre @ rs # post) st" using assms e by simp
  show lt: "RequestTime r < RequestTime r'" using honest_apart(1) [OF h m] .
  show "r' \<noteq> r" using lt by auto
next
  assume "\<forall>rs \<in> set rss. distinct rs"
  with assms show "distinct (concat rss)" by (rule honest_distinct)
qed

theorem waf_exactly_once_witness:
  "honest two_polls (start 0)
   \<and> stdout (snd (waf_loop (map Inr two_polls) (start 0))) =
       [waf_line (request_at 1), waf_line (request_at 2), waf_line (request_at 3),
        waf_line (request_at 2000000000)]"
  using honest_two_polls waf_exactly_once [OF honest_two_polls, THEN conjunct2, THEN conjunct1]
  by (simp add: two_polls_def start_def)

lemma display_status_first:
  "i st = 0 \<Longrightarrow>
   display_status x st = st\<lparr>instanceStatus := (instanceStatus st)(Name x \<mapsto> Phase x)\<rparr>"
  by (simp add: display_status_def)

lemma display_status_absent:
  "i st \<noteq> 0 \<Longrightarrow> instanceStatus st (Name x) = None \<Longrightarrow>
   display_status x st =
     st\<lparr>stdout := stdout st @ [NewInstance (Name x) (ToLower (Phase x))],
        instanceStatus := (instanceStatus st)(Name x \<mapsto> Phase x)\<rparr>"
  by (simp add: display_status_def found_def)

lemma display_status_changed:
  "i st \<noteq> 0 \<Longrightarrow> instanceStatus st (Name x) = Some old \<Longrightarrow> old \<noteq> Phase x \<Longrightarrow>
   display_status x st =
     st\<lparr>stdout := stdout st @ [InstanceNow (Name x) (ToLower (Phase x))],
        instanceStatus := (instanceStatus st)(Name x \<mapsto> Phase x)\<rparr>"
  by (simp add: display_status_def found_def index_def)

lemma display_status_same:
  "i st \<noteq> 0 \<Longrightarrow> instanceStatus st (Name x) = Some (Phase x) \<Longrightarrow> display_status x st = st"
  by (simp add: display_status_def found_def index_def)

lemma display_status_cases:
  obtains (first) "i st = 0"
      "display_status x st = st\<lparr>instanceStatus := (instanceStatus st)(Name x \<mapsto> Phase x)\<rparr>"
  | (absent) "i st \<noteq> 0" "instanceStatus st (Name x) = None"
      "display_status x st =
         st\<lparr>stdout := stdout st @ [NewInstance (Name x) (ToLower (Phase x))],
            instanceStatus := (instanceStatus st)(Name x \<mapsto> Phase x)\<rparr>"
  | (changed) old where "i st \<noteq> 0" "instanceStatus st (Name x) = Some old" "old \<noteq> Phase x"
      "display_status x st =
         st\<lparr>stdout := stdout st @ [InstanceNow (Name x) (ToLower (Phase x))],
            instanceStatus := (instanceStatus st)(Name x \<mapsto> Phase x)\<rparr>"
  | (same) "i st \<noteq> 0" "instanceStatus st (Name x) = Some (Phase x)" "display_status x st = st"
proof (cases "i st = 0")
  case True
  then show ?thesis using first display_status_first by blast
next
  case ni: False
  show ?thesis
  proof (cases "instanceStatus st (Name x)")
    case None
    with ni show ?thesis using absent display_status_absent by blast
  next
    case (Some old)
    show ?thesis
    proof (cases "old = Phase x")
      case True
      with ni Some show ?thesis using same display_status_same by blast
    next
      case False
      with ni Some show ?thesis using changed display_status_changed by blast
    qed
  qed
qed

lemma display_status_map:
  "instanceStatus (display_status x st) = (instanceStatus st)(Name x \<mapsto> Phase x)"
  by (rule display_status_cases [where st = st and x = x]) (simp_all add: fun_upd_idem)

lemma display_status_i: "i (display_status x st) = i st"
  by (rule display_status_cases [where st = st and x = x]) simp_all

lemma display_status_time:
  "mostRecentRequestTime (display_status x st) = mostRecentRequestTime st"
  by (rule display_status_cases [where st = st and x = x]) simp_all

lemma display_status_prefix: "\<exists>out. stdout (display_status x st) = stdout st @ out"
  by (rule display_status_cases [where st = st and x = x]) simp_all

lemma display_status_gone:
  "count_list (stdout (display_status x st)) (WentAway k) = count_list (stdout st) (WentAway k)"
  by (rule display_status_cases [where st = st and x = x]) simp_all

lemma display_status_quiet:
  "i st = 0 \<Longrightarrow>
   filter is_transition (stdout (display_status x st)) = filter is_transition (stdout st)"
  by (simp add: display_status_first)

lemma display_status_appeared:
  "i st \<noteq> 0 \<Longrightarrow>
   filter (appeared k) (stdout (display_status x st)) =
     filter (appeared k) (stdout st)
     @ (if Name x = k \<and> instanceStatus st k = None then [NewInstance k (ToLower (Phase x))] else [])"
  by (rule display_status_cases [where st = st and x = x]) auto

lemma handled_map:
  "instanceStatus (handled x logs st) = (instanceStatus st)(Name x \<mapsto> Phase x)"
  by (simp add: handled_def display_status_map)

lemma handled_i: "i (handled x logs st) = i st"
  by (simp add: handled_def display_status_i)

lemma handled_time: "mostRecentRequestTime (handled x logs st) = mostRecentRequestTime st"
  by (simp add: handled_def display_status_time)

lemma handled_prefix: "\<exists>out. stdout (handled x logs st) = stdout st @ out"
  using display_status_prefix [of x st] by (auto simp: handled_def)

lemma count_list_logs: "count_list (map (InstanceLog n) ls) (WentAway k) = 0"
  by (induction ls) simp_all

lemma filter_transition_logs: "filter is_transition (map (InstanceLog n) ls) = []"
  by (induction ls) simp_all

lemma filter_appeared_logs: "filter (appeared k) (map (InstanceLog n) ls) = []"
  by (induction ls) simp_all

lemma handled_gone:
  "count_list (stdout (handled x logs st)) (WentAway k) = count_list (stdout st) (WentAway k)"
  by (simp add: handled_def display_status_gone count_list_logs)

lemma handled_quiet:
  "i st = 0 \<Longrightarrow>
   filter is_transition (stdout (handled x logs st)) = filter is_transition (stdout st)"
  by (simp add: handled_def display_status_quiet filter_transition_logs)

lemma handled_appeared:
  "i st \<noteq> 0 \<Longrightarrow>
   filter (appeared k) (stdout (handled x logs st)) =
     filter (appeared k) (stdout st)
     @ (if Name x = k \<and> instanceStatus st k = None then [NewInstance k (ToLower (Phase x))] else [])"
  by (simp add: handled_def display_status_appeared filter_appeared_logs)

lemma display_instances_ok:
  "display_instances ((x, Inr logs) # items) st = display_instances items (handled x logs st)"
  by (simp add: display_instance_def handled_def Let_def)

lemma display_instances_err:
  "display_instances ((x, Inl err) # items) st =
     (Exited, donef ''Error querying %s instance logs: %s'' [Name x, err] (display_status x st))"
  by (simp add: display_instance_def Let_def)

declare display_instances.simps(2) [simp del]

lemma record_all_other: "k \<notin> Name ` set xs \<Longrightarrow> record_all xs m k = m k"
  unfolding record_all_def by (rule fold_other)

lemma record_all_Cons: "record_all (x # xs) m = record_all xs (m(Name x \<mapsto> Phase x))"
  by (simp add: record_all_def)

lemma record_all_in:
  "k \<in> Name ` set xs \<Longrightarrow> record_all xs m k = record_all xs m' k"
proof (induction xs arbitrary: m m')
  case Nil
  then show ?case by simp
next
  case (Cons x xs)
  show ?case
  proof (cases "k \<in> Name ` set xs")
    case True
    then show ?thesis using Cons.IH by (simp add: record_all_Cons)
  next
    case False
    with Cons.prems have "k = Name x" by auto
    with False show ?thesis by (simp add: record_all_Cons record_all_other)
  qed
qed

lemma record_all_dom: "dom (record_all xs m) = dom m \<union> Name ` set xs"
proof (induction xs arbitrary: m)
  case Nil
  show ?case by (simp add: record_all_def)
next
  case (Cons x xs)
  have "dom (record_all xs (m(Name x \<mapsto> Phase x))) = dom (m(Name x \<mapsto> Phase x)) \<union> Name ` set xs"
    by (rule Cons.IH)
  then show ?case unfolding record_all_Cons by auto
qed

lemma display_instances_logs_ok:
  "logs_ok items \<Longrightarrow>
   display_instances items st = (Looping, snd (display_instances items st))
   \<and> instanceStatus (snd (display_instances items st)) =
       record_all (map fst items) (instanceStatus st)
   \<and> mostRecentRequestTime (snd (display_instances items st)) = mostRecentRequestTime st"
proof (induction items arbitrary: st)
  case Nil
  show ?case by (simp add: record_all_def)
next
  case (Cons item items)
  obtain x logs where item: "item = (x, Inr logs)"
    using Cons.prems by (cases item) (auto simp: logs_ok_def)
  have "logs_ok items" using Cons.prems by (simp add: logs_ok_def)
  then have ih: "display_instances items (handled x logs st) =
        (Looping, snd (display_instances items (handled x logs st)))"
      "instanceStatus (snd (display_instances items (handled x logs st))) =
        record_all (map fst items) (instanceStatus (handled x logs st))"
      "mostRecentRequestTime (snd (display_instances items (handled x logs st))) =
        mostRecentRequestTime (handled x logs st)"
    using Cons.IH [of "handled x logs st"] by blast+
  show ?case
    unfolding item display_instances_ok
    using ih(1) by (simp add: ih(2,3) handled_map handled_time record_all_Cons)
qed

lemma display_instances_i: "i (snd (display_instances items st)) = i st"
proof (induction items arbitrary: st)
  case Nil
  show ?case by simp
next
  case (Cons item items)
  obtain x l where item: "item = (x, l)" by (cases item)
  show ?case
  proof (cases l)
    case (Inl err)
    then show ?thesis
      by (simp add: item display_instances_err donef_def display_status_i)
  next
    case (Inr logs)
    then show ?thesis
      using Cons.IH [of "handled x logs st"]
      by (simp add: item display_instances_ok handled_i)
  qed
qed

lemma display_instances_absent:
  "k \<notin> Name ` fst ` set items \<Longrightarrow> instanceStatus st k = None \<Longrightarrow>
   instanceStatus (snd (display_instances items st)) k = None"
proof (induction items arbitrary: st)
  case Nil
  then show ?case by simp
next
  case (Cons item items)
  obtain x l where item: "item = (x, l)" by (cases item)
  have nk: "Name x \<noteq> k" and rest: "k \<notin> Name ` fst ` set items"
    using Cons.prems(1) by (auto simp: item)
  show ?case
  proof (cases l)
    case (Inl err)
    then show ?thesis
      using nk Cons.prems(2)
      by (simp add: item display_instances_err donef_def display_status_map)
  next
    case (Inr logs)
    have "instanceStatus (handled x logs st) k = None"
      using nk Cons.prems(2) by (simp add: handled_map)
    with Cons.IH [OF rest, of "handled x logs st"] Inr show ?thesis
      by (simp add: item display_instances_ok)
  qed
qed

lemma display_instances_prefix:
  "\<exists>out. stdout (snd (display_instances items st)) = stdout st @ out"
proof (induction items arbitrary: st)
  case Nil
  show ?case by simp
next
  case (Cons item items)
  obtain x l where item: "item = (x, l)" by (cases item)
  show ?case
  proof (cases l)
    case (Inl err)
    obtain out where "stdout (display_status x st) = stdout st @ out"
      using display_status_prefix by blast
    then show ?thesis
      by (simp add: item Inl display_instances_err donef_def)
  next
    case (Inr logs)
    obtain out1 where 1: "stdout (handled x logs st) = stdout st @ out1"
      using handled_prefix by blast
    obtain out2 where
      "stdout (snd (display_instances items (handled x logs st))) = stdout (handled x logs st) @ out2"
      using Cons.IH by blast
    with 1 show ?thesis
      by (simp add: item Inr display_instances_ok)
  qed
qed

lemma display_instances_gone:
  "count_list (stdout (snd (display_instances items st))) (WentAway k) =
   count_list (stdout st) (WentAway k)"
proof (induction items arbitrary: st)
  case Nil
  show ?case by simp
next
  case (Cons item items)
  obtain x l where item: "item = (x, l)" by (cases item)
  show ?case
  proof (cases l)
    case (Inl err)
    then show ?thesis
      by (simp add: item display_instances_err donef_def display_status_gone)
  next
    case (Inr logs)
    then show ?thesis
      using Cons.IH [of "handled x logs st"]
      by (simp add: item display_instances_ok handled_gone)
  qed
qed

lemma display_instances_quiet:
  "i st = 0 \<Longrightarrow>
   filter is_transition (stdout (snd (display_instances items st))) =
   filter is_transition (stdout st)"
proof (induction items arbitrary: st)
  case Nil
  show ?case by simp
next
  case (Cons item items)
  obtain x l where item: "item = (x, l)" by (cases item)
  show ?case
  proof (cases l)
    case (Inl err)
    then show ?thesis
      using Cons.prems by (simp add: item display_instances_err donef_def display_status_quiet)
  next
    case (Inr logs)
    have "i (handled x logs st) = 0" using Cons.prems by (simp add: handled_i)
    from Cons.IH [OF this] Inr show ?thesis
      using Cons.prems by (simp add: item display_instances_ok handled_quiet)
  qed
qed

lemma display_instances_appeared:
  "i st \<noteq> 0 \<Longrightarrow> logs_ok items \<Longrightarrow>
   length (filter (appeared k) (stdout (snd (display_instances items st)))) =
   length (filter (appeared k) (stdout st))
   + (if k \<in> Name ` fst ` set items \<and> instanceStatus st k = None then 1 else 0)"
proof (induction items arbitrary: st)
  case Nil
  show ?case by simp
next
  case (Cons item items)
  obtain x logs where item: "item = (x, Inr logs)"
    using Cons.prems(2) by (cases item) (auto simp: logs_ok_def)
  have ok: "logs_ok items" using Cons.prems(2) by (simp add: logs_ok_def)
  have ni: "i (handled x logs st) \<noteq> 0" using Cons.prems(1) by (simp add: handled_i)
  note ih = Cons.IH [OF ni ok]
  show ?case
  proof (cases "Name x = k")
    case True
    then have "instanceStatus (handled x logs st) k = Some (Phase x)" by (simp add: handled_map)
    then show ?thesis
      using True Cons.prems(1)
      by (simp add: item display_instances_ok handled_appeared ih)
  next
    case False
    then have "instanceStatus (handled x logs st) k = instanceStatus st k"
      by (simp add: handled_map)
    then show ?thesis
      using False Cons.prems(1)
      by (simp add: item display_instances_ok handled_appeared ih)
  qed
qed

lemma check_name_eq:
  "check_name k xs (f, new) =
     (f \<or> k \<in> Name ` set xs,
      if k \<in> Name ` set xs then new(k := record_all xs Map.empty k) else new)"
proof (induction xs arbitrary: f new)
  case Nil
  show ?case by simp
next
  case (Cons x xs)
  show ?case
  proof (cases "k = Name x")
    case True
    have "check_name k (x # xs) (f, new) = check_name k xs (True, new(k \<mapsto> Phase x))"
      using True by simp
    also have "\<dots> = (True, if k \<in> Name ` set xs
        then (new(k \<mapsto> Phase x))(k := record_all xs Map.empty k) else new(k \<mapsto> Phase x))"
      by (simp add: Cons.IH)
    finally show ?thesis
      using True record_all_in [of k xs "Map.empty(Name x \<mapsto> Phase x)" Map.empty]
      by (auto simp: record_all_Cons record_all_other)
  next
    case False
    have "check_name k (x # xs) (f, new) = check_name k xs (f, new)"
      using False by simp
    then show ?thesis
      using False record_all_in [of k xs "Map.empty(Name x \<mapsto> Phase x)" Map.empty]
      by (auto simp: Cons.IH record_all_Cons)
  qed
qed

lemma went_away_eq:
  "went_away ks xs (new, out) =
     (\<lambda>k. if k \<in> set ks \<and> k \<in> Name ` set xs then record_all xs Map.empty k else new k,
      out @ map WentAway (filter (\<lambda>k. k \<notin> Name ` set xs) ks))"
proof (induction ks arbitrary: new out)
  case Nil
  show ?case by simp
next
  case (Cons k ks)
  show ?case
  proof (cases "k \<in> Name ` set xs")
    case True
    then show ?thesis
      by (auto simp: check_name_eq Cons.IH Let_def)
  next
    case False
    then show ?thesis
      by (auto simp: check_name_eq Cons.IH Let_def)
  qed
qed

lemma display_instances_append:
  "logs_ok pre \<Longrightarrow>
   display_instances (pre @ items) st = display_instances items (snd (display_instances pre st))"
proof (induction pre arbitrary: st)
  case Nil
  show ?case by simp
next
  case (Cons item pre)
  obtain x logs where item: "item = (x, Inr logs)"
    using Cons.prems by (cases item) (auto simp: logs_ok_def)
  have "logs_ok pre" using Cons.prems by (simp add: logs_ok_def)
  then show ?case
    by (simp add: item display_instances_ok Cons.IH)
qed

lemma display_cycle_Inl:
  "fetched p = Inl err \<Longrightarrow>
   display_cycle p st = (Exited, donef ''Error querying workload instances: %s'' [err] st)"
  by (simp add: display_cycle_def)

lemma display_cycle_Exited:
  "fetched p = Inr items \<Longrightarrow> fst (display_instances items st) = Exited \<Longrightarrow>
   display_cycle p st = display_instances items st"
  by (cases "display_instances items st") (simp add: display_cycle_def)

lemma display_instances_status: "fst (display_instances items st) \<noteq> Broke"
proof (induction items arbitrary: st)
  case Nil
  show ?case by simp
next
  case (Cons item items)
  obtain x l where item: "item = (x, l)" by (cases item)
  show ?case
  proof (cases l)
    case (Inl err)
    then show ?thesis by (simp add: item display_instances_err)
  next
    case (Inr logs)
    then show ?thesis by (simp add: item display_instances_ok Cons.IH)
  qed
qed

lemma display_cycle_Looping:
  assumes "fetched p = Inr items" and "fst (display_instances items st) = Looping"
  shows "display_cycle p st =
     (Looping,
      (if i st \<noteq> 0
       then (snd (display_instances items st))
              \<lparr>instanceStatus :=
                 (\<lambda>k. if k \<in> set (keys p) \<and> k \<in> Name ` fst ` set items
                      then record_all (map fst items) Map.empty k else None),
               stdout := stdout (snd (display_instances items st))
                 @ map WentAway (filter (\<lambda>k. k \<notin> Name ` fst ` set items) (keys p))\<rparr>
       else snd (display_instances items st))
      \<lparr>i := i st + 1, mostRecentRequestTime := now p\<rparr>)"
proof -
  obtain st1 where d: "display_instances items st = (Looping, st1)"
    using assms(2) by (cases "display_instances items st") simp
  have i1: "i st1 = i st" using display_instances_i [of items st] d by simp
  show ?thesis
    using assms(1) i1 by (simp add: display_cycle_def d went_away_eq Let_def image_image)
qed

lemma display_cycle_ok:
  assumes "fetched p = Inr items" and "logs_ok items"
  shows "display_cycle p st =
     (Looping,
      (if i st \<noteq> 0
       then (snd (display_instances items st))
              \<lparr>instanceStatus :=
                 (\<lambda>k. if k \<in> set (keys p) \<and> k \<in> Name ` fst ` set items
                      then record_all (map fst items) Map.empty k else None),
               stdout := stdout (snd (display_instances items st))
                 @ map WentAway (filter (\<lambda>k. k \<notin> Name ` fst ` set items) (keys p))\<rparr>
       else snd (display_instances items st))
      \<lparr>i := i st + 1, mostRecentRequestTime := now p\<rparr>)"
proof -
  have "fst (display_instances items st) = Looping"
    using display_instances_logs_ok [OF assms(2), of st] by (simp add: prod_eq_iff)
  with assms(1) show ?thesis by (rule display_cycle_Looping)
qed

lemma display_cycle_absent:
  assumes "instanceStatus st k = None" and "k \<notin> fetched_names p"
  shows "instanceStatus (snd (display_cycle p st)) k = None"
proof (cases "fetched p")
  case (Inl err)
  then show ?thesis using assms(1) by (simp add: display_cycle_Inl donef_def)
next
  case (Inr items)
  have nk: "k \<notin> Name ` fst ` set items" using assms(2) Inr by (simp add: fetched_names_def)
  have a: "instanceStatus (snd (display_instances items st)) k = None"
    using nk assms(1) by (rule display_instances_absent)
  show ?thesis
  proof (cases "fst (display_instances items st)")
    case Looping
    show ?thesis using a nk by (simp add: display_cycle_Looping [OF Inr Looping])
  next
    case Broke
    then show ?thesis using display_instances_status by blast
  next
    case Exited
    show ?thesis using a by (simp add: display_cycle_Exited [OF Inr Exited])
  qed
qed

lemma display_loop_absent:
  "instanceStatus st k = None \<Longrightarrow> \<forall>p \<in> set ps. k \<notin> fetched_names p \<Longrightarrow>
   instanceStatus (snd (display_loop ps st)) k = None"
proof (induction ps arbitrary: st)
  case Nil
  then show ?case by simp
next
  case (Cons p ps)
  have a: "instanceStatus (snd (display_cycle p st)) k = None"
    using Cons.prems by (simp add: display_cycle_absent)
  obtain s st' where c: "display_cycle p st = (s, st')" by (cases "display_cycle p st")
  show ?case
  proof (cases s)
    case Looping
    then show ?thesis using a c Cons.IH [of st'] Cons.prems(2) by simp
  next
    case Broke
    then show ?thesis using a c by simp
  next
    case Exited
    then show ?thesis using a c by simp
  qed
qed

lemma display_loop_append:
  "fst (display_loop pre st) = Looping \<Longrightarrow>
   display_loop (pre @ post) st = display_loop post (snd (display_loop pre st))"
proof (induction pre arbitrary: st)
  case Nil
  show ?case by simp
next
  case (Cons p ps)
  obtain s st' where c: "display_cycle p st = (s, st')" by (cases "display_cycle p st")
  show ?case
  proof (cases s)
    case Looping
    with c Cons show ?thesis by simp
  next
    case Broke
    with c Cons.prems show ?thesis by simp
  next
    case Exited
    with c Cons.prems show ?thesis by simp
  qed
qed

lemma waf_loop_append_any:
  "fst (waf_loop pre st) = Looping \<Longrightarrow>
   waf_loop (pre @ post) st = waf_loop post (snd (waf_loop pre st))"
proof (induction pre arbitrary: st)
  case Nil
  show ?case by simp
next
  case (Cons f fs)
  obtain s st' where c: "waf_cycle f st = (s, st')" by (cases "waf_cycle f st")
  show ?case
  proof (cases s)
    case Looping
    with c Cons show ?thesis by simp
  next
    case Broke
    with c Cons.prems show ?thesis by simp
  next
    case Exited
    with c Cons.prems show ?thesis by simp
  qed
qed

lemma count_list_WentAway: "count_list (map WentAway ks) (WentAway k) = count_list ks k"
  by (induction ks) simp_all

lemma filter_appeared_WentAway: "filter (appeared k) (map WentAway ks) = []"
  by (induction ks) simp_all

lemma count_list_distinct:
  "distinct ks \<Longrightarrow> k \<in> set ks \<Longrightarrow> P k \<Longrightarrow> count_list (filter P ks) k = 1"
proof (induction ks)
  case Nil
  then show ?case by simp
next
  case (Cons a ks)
  show ?case
  proof (cases "a = k")
    case True
    then have "k \<notin> set (filter P ks)" using Cons.prems(1) by simp
    then have "count_list (filter P ks) k = 0" by (simp add: count_list_0_iff)
    then show ?thesis using True Cons.prems(3) by simp
  next
    case False
    then show ?thesis using Cons by simp
  qed
qed

lemma display_instances_new:
  "i st \<noteq> 0 \<Longrightarrow> logs_ok items \<Longrightarrow>
   filter (appeared k) (stdout (snd (display_instances items st))) =
   filter (appeared k) (stdout st)
   @ (if instanceStatus st k = None
      then (case find (\<lambda>y. Name y = k) (map fst items) of
              None \<Rightarrow> [] | Some y \<Rightarrow> [NewInstance k (ToLower (Phase y))])
      else [])"
proof (induction items arbitrary: st)
  case Nil
  show ?case by simp
next
  case (Cons item items)
  obtain x logs where item: "item = (x, Inr logs)"
    using Cons.prems(2) by (cases item) (auto simp: logs_ok_def)
  have ok: "logs_ok items" using Cons.prems(2) by (simp add: logs_ok_def)
  have ni: "i (handled x logs st) \<noteq> 0" using Cons.prems(1) by (simp add: handled_i)
  note ih = Cons.IH [OF ni ok]
  show ?case
  proof (cases "Name x = k")
    case True
    then have "instanceStatus (handled x logs st) k = Some (Phase x)" by (simp add: handled_map)
    then show ?thesis
      using True Cons.prems(1)
      by (simp add: item display_instances_ok handled_appeared ih)
  next
    case False
    then have "instanceStatus (handled x logs st) k = instanceStatus st k"
      by (simp add: handled_map)
    then show ?thesis
      using False Cons.prems(1)
      by (simp add: item display_instances_ok handled_appeared ih)
  qed
qed

lemma display_cycle_stdout:
  assumes "i st \<noteq> 0" and "fetched p = Inr items" and "logs_ok items"
  shows "\<exists>out1. stdout (snd (display_instances items st)) = stdout st @ out1
           \<and> display_cycle p st = (Looping, snd (display_cycle p st))
           \<and> stdout (snd (display_cycle p st)) =
               stdout st @ out1
               @ map WentAway (filter (\<lambda>k. k \<notin> Name ` fst ` set items) (keys p))"
proof -
  obtain out1 where o: "stdout (snd (display_instances items st)) = stdout st @ out1"
    using display_instances_prefix by blast
  show ?thesis
    using assms(1) o by (simp add: display_cycle_ok [OF assms(2,3)])
qed

lemma display_cycle_gone:
  assumes "i st \<noteq> 0" and "fetched p = Inr items" and "logs_ok items"
    and "distinct (keys p)" and "k \<in> set (keys p)" and "k \<notin> Name ` fst ` set items"
  shows "\<exists>out. display_cycle p st = (Looping, snd (display_cycle p st))
           \<and> stdout (snd (display_cycle p st)) = stdout st @ out
           \<and> count_list out (WentAway k) = 1"
proof -
  obtain out1 where o: "stdout (snd (display_instances items st)) = stdout st @ out1"
    and l: "display_cycle p st = (Looping, snd (display_cycle p st))"
    and c: "stdout (snd (display_cycle p st)) =
               stdout st @ out1
               @ map WentAway (filter (\<lambda>k. k \<notin> Name ` fst ` set items) (keys p))"
    using display_cycle_stdout [OF assms(1,2,3)] by blast
  have "count_list (stdout st @ out1) (WentAway k) = count_list (stdout st) (WentAway k)"
    using display_instances_gone [of items st k] o by simp
  then have z: "count_list out1 (WentAway k) = 0" by simp
  have "count_list (filter (\<lambda>k. k \<notin> Name ` fst ` set items) (keys p)) k = 1"
    using assms(4,5,6) by (rule count_list_distinct)
  then have "count_list
      (out1 @ map WentAway (filter (\<lambda>k. k \<notin> Name ` fst ` set items) (keys p))) (WentAway k) = 1"
    using z by (simp add: count_list_WentAway)
  with l c show ?thesis by auto
qed

lemma display_cycle_new:
  assumes "i st \<noteq> 0" and "fetched p = Inr items" and "logs_ok items"
    and "instanceStatus st k = None" and "find (\<lambda>y. Name y = k) (map fst items) = Some x"
  shows "\<exists>out. display_cycle p st = (Looping, snd (display_cycle p st))
           \<and> stdout (snd (display_cycle p st)) = stdout st @ out
           \<and> filter (appeared k) out = [NewInstance k (ToLower (Phase x))]"
proof -
  obtain out1 where o: "stdout (snd (display_instances items st)) = stdout st @ out1"
    and l: "display_cycle p st = (Looping, snd (display_cycle p st))"
    and c: "stdout (snd (display_cycle p st)) =
               stdout st @ out1
               @ map WentAway (filter (\<lambda>k. k \<notin> Name ` fst ` set items) (keys p))"
    using display_cycle_stdout [OF assms(1,2,3)] by blast
  have "filter (appeared k) (stdout st @ out1) =
        filter (appeared k) (stdout st) @ [NewInstance k (ToLower (Phase x))]"
    using display_instances_new [OF assms(1,3), of k] o assms(4,5) by simp
  then have "filter (appeared k) out1 = [NewInstance k (ToLower (Phase x))]" by simp
  then have "filter (appeared k)
      (out1 @ map WentAway (filter (\<lambda>k. k \<notin> Name ` fst ` set items) (keys p))) =
      [NewInstance k (ToLower (Phase x))]"
    by (simp add: filter_appeared_WentAway)
  with l c show ?thesis by auto
qed

lemma display_cycle_map:
  assumes "i st \<noteq> 0" and "fetched p = Inr items" and "logs_ok items"
    and "range_of (instanceStatus (snd (display_instances items st))) (keys p)"
  shows "instanceStatus (snd (display_cycle p st)) = record_all (map fst items) Map.empty"
proof
  fix k
  have m: "instanceStatus (snd (display_instances items st)) =
      record_all (map fst items) (instanceStatus st)"
    using display_instances_logs_ok [OF assms(3), of st] by simp
  have ks: "set (keys p) = dom (instanceStatus st) \<union> Name ` fst ` set items"
    using assms(4) by (simp add: range_of_def m record_all_dom image_image)
  show "instanceStatus (snd (display_cycle p st)) k = record_all (map fst items) Map.empty k"
  proof (cases "k \<in> Name ` fst ` set items")
    case True
    then show ?thesis
      using assms(1) ks by (simp add: display_cycle_ok [OF assms(2,3)])
  next
    case False
    then have "record_all (map fst items) Map.empty k = None"
      by (simp add: record_all_other image_image)
    then show ?thesis
      using assms(1) False by (simp add: display_cycle_ok [OF assms(2,3)])
  qed
qed

lemma display_cycle_first:
  assumes "i st = 0" and "fetched p = Inr items" and "logs_ok items"
  shows "display_cycle p st = (Looping, snd (display_cycle p st))"
    and "filter is_transition (stdout (snd (display_cycle p st))) =
         filter is_transition (stdout st)"
    and "instanceStatus (snd (display_cycle p st)) =
         record_all (map fst items) (instanceStatus st)"
proof -
  show "display_cycle p st = (Looping, snd (display_cycle p st))"
    by (simp add: display_cycle_ok [OF assms(2,3)])
  show "filter is_transition (stdout (snd (display_cycle p st))) =
        filter is_transition (stdout st)"
    using assms(1) display_instances_quiet [OF assms(1), of items]
    by (simp add: display_cycle_ok [OF assms(2,3)])
  show "instanceStatus (snd (display_cycle p st)) =
         record_all (map fst items) (instanceStatus st)"
    using assms(1) display_instances_logs_ok [OF assms(3), of st]
    by (simp add: display_cycle_ok [OF assms(2,3)])
qed

lemma wait_instances_absent:
  "instanceStatus st k = None \<Longrightarrow> k \<notin> Name ` set pre \<Longrightarrow>
   instanceStatus (fst (wait_instances idx pre (st, b))) k = None"
  by (simp add: wait_instances_map fold_other)

text \<open>
  Claim C4, as amended. A turn of the bring-up monitor on an empty fetch leaves the
  monitor as it is: nothing is printed and the map keeps its entries. The continuous
  monitor has no such test. Its turn on an empty fetch always advances the counter and
  the time of the next log query; on the first turn (counter at zero) it prints nothing
  and keeps the map, and on every later turn it prints a line
  \<^verbatim>\<open>[name] instance went away\<close> for every key the \<^verbatim>\<open>range\<close> over the map yields and
  replaces the map by an empty one.
\<close>

theorem empty_fetch:
  "wait_cycle (Inr []) st = (Looping, st)
   \<and> display_cycle (p\<lparr>fetched := Inr []\<rparr>) st =
       (Looping,
        (if i st \<noteq> 0
         then st\<lparr>instanceStatus := Map.empty, stdout := stdout st @ map WentAway (keys p)\<rparr>
         else st)
        \<lparr>i := i st + 1, mostRecentRequestTime := now p\<rparr>)"
proof
  show "wait_cycle (Inr []) st = (Looping, st)" by (simp add: wait_cycle_def)
  have "logs_ok []" by (simp add: logs_ok_def)
  then show "display_cycle (p\<lparr>fetched := Inr []\<rparr>) st =
       (Looping,
        (if i st \<noteq> 0
         then st\<lparr>instanceStatus := Map.empty, stdout := stdout st @ map WentAway (keys p)\<rparr>
         else st)
        \<lparr>i := i st + 1, mostRecentRequestTime := now p\<rparr>)"
    by (simp add: display_cycle_ok [of "p\<lparr>fetched := Inr []\<rparr>" "[]"])
qed

theorem empty_fetch_witness:
  "wait_cycle (Inr []) (seen ''RUNNING'') = (Looping, seen ''RUNNING'')
   \<and> display_cycle ((poll_of [(instance_of ''A'' ''RUNNING'', Inr [])] [])\<lparr>fetched := Inr []\<rparr>) (start 0) =
       (Looping, (start 0)\<lparr>i := 1, mostRecentRequestTime := 5\<rparr>)"
  using empty_fetch [of "seen ''RUNNING''"]
    empty_fetch [of "start 0" "poll_of [(instance_of ''A'' ''RUNNING'', Inr [])] []"]
  by (simp add: start_def poll_of_def)

text \<open>
  The claim as stated fails for the continuous monitor: started at time \<open>0\<close>, after a
  first poll that returns the instance \<^verbatim>\<open>A\<close>, running, a second poll that returns no
  instance at all prints \<^verbatim>\<open>[A] instance went away\<close> and leaves the map empty.
\<close>

theorem empty_fetch_counterexample:
  "range_of [''A'' \<mapsto> ''RUNNING''] [''A'']
   \<and> display_loop [poll_of [(instance_of ''A'' ''RUNNING'', Inr [])] [''A''], poll_of [] [''A'']] (start 0) =
       (Looping, \<lparr>instanceStatus = Map.empty, i = 2, mostRecentRequestTime = 5,
                  stdout = [WentAway ''A'']\<rparr>)"
  by (simp add: range_of_def display_cycle_def display_instances.simps display_instance_def
      display_status_def poll_of_def instance_of_def start_def scan_lines_def Let_def)

text \<open>
  Claim C5, as amended. In a turn of the bring-up monitor, the first item of the fetched
  list with a name that was not in the map at the start of the turn is handled with the
  name still not in the map; it prints exactly one line \<^verbatim>\<open>| Instance "name" is phase\<close>
  with the lower-cased phase of the item and records the phase under the name. In a turn
  of the continuous monitor with the counter not at zero, an item whose name is not in
  the map prints exactly one line \<^verbatim>\<open>[New instance name] instance is phase\<close> and records
  the phase; over the whole turn, when all logs are fetched, a name that was not in the
  map at the start and occurs in the fetch gets exactly one such line, with the phase of
  its first item, and the map at the end of the turn is the one that records, in order,
  the items of the fetch. In the first turn of the continuous monitor (counter at zero)
  every item is recorded and no line about an instance appearing, changing or going away
  is printed.
\<close>

theorem appearance:
  "(instanceStatus st (Name x) = None \<and> Name x \<notin> Name ` set pre \<longrightarrow>
      instanceStatus (fst (wait_instances 0 pre (st, True))) (Name x) = None
      \<and> fst (wait_instance (length pre) x (wait_instances 0 pre (st, True))) =
          (fst (wait_instances 0 pre (st, True)))
            \<lparr>stdout := stdout (fst (wait_instances 0 pre (st, True)))
                         @ (if length pre = 0 then [Println ''''] else [])
                         @ [InstanceIs (Name x) (ToLower (Phase x))],
             instanceStatus :=
               (instanceStatus (fst (wait_instances 0 pre (st, True))))(Name x \<mapsto> Phase x)\<rparr>)
   \<and> (i st \<noteq> 0 \<and> instanceStatus st (Name x) = None \<longrightarrow>
        display_status x st =
          st\<lparr>stdout := stdout st @ [NewInstance (Name x) (ToLower (Phase x))],
             instanceStatus := (instanceStatus st)(Name x \<mapsto> Phase x)\<rparr>)
   \<and> (i st \<noteq> 0 \<and> instanceStatus st k = None \<and> fetched p = Inr items \<and> logs_ok items
        \<and> find (\<lambda>y. Name y = k) (map fst items) = Some x \<longrightarrow>
        (\<exists>out. display_cycle p st = (Looping, snd (display_cycle p st))
           \<and> stdout (snd (display_cycle p st)) = stdout st @ out
           \<and> filter (appeared k) out = [NewInstance k (ToLower (Phase x))]))
   \<and> (i st \<noteq> 0 \<and> fetched p = Inr items \<and> logs_ok items
        \<and> range_of (instanceStatus (snd (display_instances items st))) (keys p) \<longrightarrow>
        instanceStatus (snd (display_cycle p st)) = record_all (map fst items) Map.empty)
   \<and> (i st = 0 \<longrightarrow>
        display_status x st = st\<lparr>instanceStatus := (instanceStatus st)(Name x \<mapsto> Phase x)\<rparr>)
   \<and> (i st = 0 \<and> fetched p = Inr items \<and> logs_ok items \<longrightarrow>
        display_cycle p st = (Looping, snd (display_cycle p st))
        \<and> filter is_transition (stdout (snd (display_cycle p st))) =
            filter is_transition (stdout st)
        \<and> instanceStatus (snd (display_cycle p st)) =
            record_all (map fst items) (instanceStatus st))"
proof (intro conjI impI)
  assume a: "instanceStatus st (Name x) = None \<and> Name x \<notin> Name ` set pre"
  obtain s b where acc: "wait_instances 0 pre (st, True) = (s, b)"
    by (cases "wait_instances 0 pre (st, True)")
  have n: "instanceStatus s (Name x) = None"
    using wait_instances_absent [of st "Name x" pre 0 True] a acc by simp
  then show "instanceStatus (fst (wait_instances 0 pre (st, True))) (Name x) = None"
    by (simp add: acc)
  have "instanceStatus s (Name x) \<noteq> Some (Phase x)" using n by simp
  then show "fst (wait_instance (length pre) x (wait_instances 0 pre (st, True))) =
          (fst (wait_instances 0 pre (st, True)))
            \<lparr>stdout := stdout (fst (wait_instances 0 pre (st, True)))
                         @ (if length pre = 0 then [Println ''''] else [])
                         @ [InstanceIs (Name x) (ToLower (Phase x))],
             instanceStatus :=
               (instanceStatus (fst (wait_instances 0 pre (st, True))))(Name x \<mapsto> Phase x)\<rparr>"
    unfolding acc fst_conv by (rule wait_instance_changed)
next
  assume "i st \<noteq> 0 \<and> instanceStatus st (Name x) = None"
  then show "display_status x st =
          st\<lparr>stdout := stdout st @ [NewInstance (Name x) (ToLower (Phase x))],
             instanceStatus := (instanceStatus st)(Name x \<mapsto> Phase x)\<rparr>"
    by (simp add: display_status_absent)
next
  assume "i st \<noteq> 0 \<and> instanceStatus st k = None \<and> fetched p = Inr items \<and> logs_ok items
        \<and> find (\<lambda>y. Name y = k) (map fst items) = Some x"
  then show "\<exists>out. display_cycle p st = (Looping, snd (display_cycle p st))
           \<and> stdout (snd (display_cycle p st)) = stdout st @ out
           \<and> filter (appeared k) out = [NewInstance k (ToLower (Phase x))]"
    using display_cycle_new [of st p items k x] by blast
next
  assume "i st \<noteq> 0 \<and> fetched p = Inr items \<and> logs_ok items
        \<and> range_of (instanceStatus (snd (display_instances items st))) (keys p)"
  then show "instanceStatus (snd (display_cycle p st)) = record_all (map fst items) Map.empty"
    using display_cycle_map [of st p items] by blast
next
  assume "i st = 0"
  then show "display_status x st = st\<lparr>instanceStatus := (instanceStatus st)(Name x \<mapsto> Phase x)\<rparr>"
    by (rule display_status_first)
next
  assume a: "i st = 0 \<and> fetched p = Inr items \<and> logs_ok items"
  show "display_cycle p st = (Looping, snd (display_cycle p st))"
    using a display_cycle_first(1) [of st p items] by blast
  show "filter is_transition (stdout (snd (display_cycle p st))) =
            filter is_transition (stdout st)"
    using a display_cycle_first(2) [of st p items] by blast
  show "instanceStatus (snd (display_cycle p st)) =
            record_all (map fst items) (instanceStatus st)"
    using a display_cycle_first(3) [of st p items] by blast
qed

text \<open>
  An instance of the theorem: with \<^verbatim>\<open>A\<close> recorded and the counter at one, a poll that
  returns \<^verbatim>\<open>B\<close>, pending, and then \<^verbatim>\<open>A\<close> prints one line for the new instance
  \<^verbatim>\<open>B\<close>.
\<close>

theorem appearance_witness:
  "i (seen ''RUNNING'') \<noteq> 0 \<and> instanceStatus (seen ''RUNNING'') ''B'' = None
   \<and> logs_ok [(instance_of ''B'' ''PENDING'', Inr []), (instance_of ''A'' ''RUNNING'', Inr [])]
   \<and> find (\<lambda>y. Name y = ''B'')
        (map fst [(instance_of ''B'' ''PENDING'', Inr []), (instance_of ''A'' ''RUNNING'', Inr [])]) =
      Some (instance_of ''B'' ''PENDING'')
   \<and> filter (appeared ''B'')
       (stdout (snd (display_cycle
          (poll_of [(instance_of ''B'' ''PENDING'', Inr []), (instance_of ''A'' ''RUNNING'', Inr [])]
             [''A'', ''B''])
          (seen ''RUNNING'')))) =
     [NewInstance ''B'' ''pending'']"
proof -
  have h: "i (seen ''RUNNING'') \<noteq> 0 \<and> instanceStatus (seen ''RUNNING'') ''B'' = None
      \<and> fetched (poll_of [(instance_of ''B'' ''PENDING'', Inr []), (instance_of ''A'' ''RUNNING'', Inr [])]
             [''A'', ''B'']) =
        Inr [(instance_of ''B'' ''PENDING'', Inr []), (instance_of ''A'' ''RUNNING'', Inr [])]
      \<and> logs_ok [(instance_of ''B'' ''PENDING'', Inr []), (instance_of ''A'' ''RUNNING'', Inr [])]
      \<and> find (\<lambda>y. Name y = ''B'')
        (map fst [(instance_of ''B'' ''PENDING'', Inr []), (instance_of ''A'' ''RUNNING'', Inr [])]) =
        Some (instance_of ''B'' ''PENDING'')"
    by (simp add: seen_def poll_of_def logs_ok_def instance_of_def)
  note t = appearance [of "seen ''RUNNING''" "instance_of ''B'' ''PENDING''" "[]" "''B''"
      "poll_of [(instance_of ''B'' ''PENDING'', Inr []), (instance_of ''A'' ''RUNNING'', Inr [])]
             [''A'', ''B'']"
      "[(instance_of ''B'' ''PENDING'', Inr []), (instance_of ''A'' ''RUNNING'', Inr [])]",
      THEN conjunct2, THEN conjunct2, THEN conjunct1, rule_format, OF h]
  have "filter (appeared ''B'')
       (stdout (snd (display_cycle
          (poll_of [(instance_of ''B'' ''PENDING'', Inr []), (instance_of ''A'' ''RUNNING'', Inr [])]
             [''A'', ''B''])
          (seen ''RUNNING'')))) =
     [NewInstance ''B'' ''pending'']"
    using t by (auto simp: seen_def instance_of_def ToLower_PENDING)
  with h show ?thesis by simp
qed

text \<open>
  The claim as stated fails at the first poll of the continuous monitor: started at time
  \<open>0\<close>, a first poll that returns the instance \<^verbatim>\<open>A\<close>, pending, records it and prints
  nothing.
\<close>

theorem appearance_counterexample:
  "instanceStatus (start 0) ''A'' = None
   \<and> display_loop [poll_of [(instance_of ''A'' ''PENDING'', Inr [])] [''A'']] (start 0) =
       (Looping, \<lparr>instanceStatus = [''A'' \<mapsto> ''PENDING''], i = 1, mostRecentRequestTime = 5,
                  stdout = []\<rparr>)"
  by (simp add: display_cycle_def display_instances.simps display_instance_def
      display_status_def poll_of_def instance_of_def start_def scan_lines_def Let_def)

text \<open>
  Claim C6, as amended. An item whose phase differs from the phase recorded under its
  name prints exactly one line and records the new phase: in the bring-up monitor the
  line \<^verbatim>\<open>| Instance "name" is phase\<close>, the same as for a name that is not recorded, and
  in the continuous monitor, with the counter not at zero, the line
  \<^verbatim>\<open>[name] instance is now phase\<close>. The line carries the name and the lower-cased new
  phase and nothing of the phase recorded before: two monitors that differ in the
  recorded phase only print the same line. In the first turn of the continuous monitor
  the new phase is recorded and nothing is printed.
\<close>

theorem change_line:
  "(instanceStatus s (Name x) = Some old \<and> old \<noteq> Phase x \<longrightarrow>
      fst (wait_instance idx x (s, b)) =
        s\<lparr>stdout := stdout s @ (if idx = 0 then [Println ''''] else [])
                       @ [InstanceIs (Name x) (ToLower (Phase x))],
          instanceStatus := (instanceStatus s)(Name x \<mapsto> Phase x)\<rparr>)
   \<and> (i st \<noteq> 0 \<and> instanceStatus st (Name x) = Some old \<and> old \<noteq> Phase x \<longrightarrow>
        display_status x st =
          st\<lparr>stdout := stdout st @ [InstanceNow (Name x) (ToLower (Phase x))],
             instanceStatus := (instanceStatus st)(Name x \<mapsto> Phase x)\<rparr>)
   \<and> (old \<noteq> Phase x \<and> old' \<noteq> Phase x \<longrightarrow>
        stdout (fst (wait_instance idx x (s\<lparr>instanceStatus := (instanceStatus s)(Name x \<mapsto> old)\<rparr>, b))) =
        stdout (fst (wait_instance idx x (s\<lparr>instanceStatus := (instanceStatus s)(Name x \<mapsto> old')\<rparr>, b))))
   \<and> (i st \<noteq> 0 \<and> old \<noteq> Phase x \<and> old' \<noteq> Phase x \<longrightarrow>
        stdout (display_status x (st\<lparr>instanceStatus := (instanceStatus st)(Name x \<mapsto> old)\<rparr>)) =
        stdout (display_status x (st\<lparr>instanceStatus := (instanceStatus st)(Name x \<mapsto> old')\<rparr>)))
   \<and> (i st = 0 \<longrightarrow>
        display_status x st = st\<lparr>instanceStatus := (instanceStatus st)(Name x \<mapsto> Phase x)\<rparr>)"
proof (intro conjI impI)
  assume "instanceStatus s (Name x) = Some old \<and> old \<noteq> Phase x"
  then have "instanceStatus s (Name x) \<noteq> Some (Phase x)" by auto
  then show "fst (wait_instance idx x (s, b)) =
        s\<lparr>stdout := stdout s @ (if idx = 0 then [Println ''''] else [])
                       @ [InstanceIs (Name x) (ToLower (Phase x))],
          instanceStatus := (instanceStatus s)(Name x \<mapsto> Phase x)\<rparr>"
    by (rule wait_instance_changed)
next
  assume "i st \<noteq> 0 \<and> instanceStatus st (Name x) = Some old \<and> old \<noteq> Phase x"
  then show "display_status x st =
          st\<lparr>stdout := stdout st @ [InstanceNow (Name x) (ToLower (Phase x))],
             instanceStatus := (instanceStatus st)(Name x \<mapsto> Phase x)\<rparr>"
    using display_status_changed [of st x old] by blast
next
  assume "old \<noteq> Phase x \<and> old' \<noteq> Phase x"
  then show "stdout (fst (wait_instance idx x (s\<lparr>instanceStatus := (instanceStatus s)(Name x \<mapsto> old)\<rparr>, b))) =
        stdout (fst (wait_instance idx x (s\<lparr>instanceStatus := (instanceStatus s)(Name x \<mapsto> old')\<rparr>, b)))"
    by (simp add: wait_instance_changed)
next
  assume "i st \<noteq> 0 \<and> old \<noteq> Phase x \<and> old' \<noteq> Phase x"
  then show "stdout (display_status x (st\<lparr>instanceStatus := (instanceStatus st)(Name x \<mapsto> old)\<rparr>)) =
        stdout (display_status x (st\<lparr>instanceStatus := (instanceStatus st)(Name x \<mapsto> old')\<rparr>))"
    by (simp add: display_status_changed [where old = old] display_status_changed [where old = old'])
next
  assume "i st = 0"
  then show "display_status x st = st\<lparr>instanceStatus := (instanceStatus st)(Name x \<mapsto> Phase x)\<rparr>"
    by (rule display_status_first)
qed

text \<open>
  An instance of the theorem: \<^verbatim>\<open>A\<close> is recorded as pending and is fetched running.
\<close>

theorem change_line_witness:
  "instanceStatus (seen ''PENDING'') (Name (instance_of ''A'' ''RUNNING'')) = Some ''PENDING''
   \<and> ''PENDING'' \<noteq> Phase (instance_of ''A'' ''RUNNING'')
   \<and> i (seen ''PENDING'') \<noteq> 0
   \<and> fst (wait_instance 0 (instance_of ''A'' ''RUNNING'') (seen ''PENDING'', True)) =
       (seen ''PENDING'')\<lparr>stdout := [Println '''', InstanceIs ''A'' ''running''],
                           instanceStatus := [''A'' \<mapsto> ''RUNNING'']\<rparr>
   \<and> display_status (instance_of ''A'' ''RUNNING'') (seen ''PENDING'') =
       (seen ''PENDING'')\<lparr>stdout := [InstanceNow ''A'' ''running''],
                           instanceStatus := [''A'' \<mapsto> ''RUNNING'']\<rparr>"
  using change_line [of "seen ''PENDING''" "instance_of ''A'' ''RUNNING''" "''PENDING''" 0 True
      "seen ''PENDING''" "''PENDING''"]
  by (simp add: seen_def instance_of_def ToLower_RUNNING)

text \<open>
  The claim as stated fails: the line printed for \<^verbatim>\<open>A\<close> turning to running is the same
  whether \<^verbatim>\<open>A\<close> was recorded as pending or as starting, in both monitors, so the
  recorded phase is no part of it.
\<close>

theorem change_line_counterexample:
  "stdout (snd (wait_cycle (Inr [instance_of ''A'' ''RUNNING'']) (seen ''PENDING''))) =
     [Println '''', InstanceIs ''A'' ''running'']
   \<and> stdout (snd (wait_cycle (Inr [instance_of ''A'' ''RUNNING'']) (seen ''STARTING''))) =
     [Println '''', InstanceIs ''A'' ''running'']
   \<and> stdout (snd (display_cycle (poll_of [(instance_of ''A'' ''RUNNING'', Inr [])] [''A''])
        (seen ''PENDING''))) =
     [InstanceNow ''A'' ''running'']
   \<and> stdout (snd (display_cycle (poll_of [(instance_of ''A'' ''RUNNING'', Inr [])] [''A''])
        (seen ''STARTING''))) =
     [InstanceNow ''A'' ''running'']"
  by (simp add: wait_cycle_def wait_instance_def display_cycle_def display_instances.simps
      display_instance_def display_status_def poll_of_def instance_of_def seen_def
      found_def index_def scan_lines_def Let_def ToLower_RUNNING)

lemma donef_frame:
  "instanceStatus (donef format args s) = instanceStatus s
   \<and> i (donef format args s) = i s
   \<and> mostRecentRequestTime (donef format args s) = mostRecentRequestTime s
   \<and> stdout (donef format args s) = stdout s @ [Errorf format args, Println ''Done'', Println '''']
   \<and> filter is_transition (stdout (donef format args s)) = filter is_transition (stdout s)"
  by (simp add: donef_def)

lemma wait_loop_Inl:
  "wait_loop (Inl err # rest) st = (Exited, donef ''Error querying instance status: %s'' [err] st)"
  by (simp add: wait_cycle_def)

lemma waf_loop_Inl:
  "waf_loop (Inl err # rest) st = (Exited, donef ''Error getting WAF requests: %s'' [err] st)"
  by (simp add: waf_cycle_def)

lemma display_loop_Inl:
  "fetched p = Inl err \<Longrightarrow>
   display_loop (p # rest) st =
     (Exited, donef ''Error querying workload instances: %s'' [err] st)"
  by (simp add: display_cycle_Inl)

lemma display_loop_logs_Inl:
  assumes "fetched p = Inr (ok @ (x, Inl err) # others)" and "logs_ok ok"
  shows "display_loop (p # rest) st =
     (Exited, donef ''Error querying %s instance logs: %s'' [Name x, err]
                (display_status x (snd (display_instances ok st))))"
proof -
  have d: "display_instances (ok @ (x, Inl err) # others) st =
      (Exited, donef ''Error querying %s instance logs: %s'' [Name x, err]
                 (display_status x (snd (display_instances ok st))))"
    using display_instances_append [OF assms(2), of "(x, Inl err) # others" st]
    by (simp add: display_instances_err)
  then have "fst (display_instances (ok @ (x, Inl err) # others) st) = Exited" by simp
  with assms(1) have "display_cycle p st = display_instances (ok @ (x, Inl err) # others) st"
    by (rule display_cycle_Exited)
  then show ?thesis by (simp add: d)
qed

text \<open>
  Claim C8. In a turn of the continuous monitor with the counter not at zero, all logs
  fetched, and the \<^verbatim>\<open>range\<close> yielding the keys of the map once each, a name that is in
  the map and is not among the fetched instances gets exactly one line
  \<^verbatim>\<open>[name] instance went away\<close> in the output of the turn, and is no longer in the map
  at the end of the turn. It stays out of the map over any later polls that do not fetch
  it, and in a later turn (counter not at zero, all logs fetched) whose fetch holds it
  again it gets exactly one line \<^verbatim>\<open>[New instance name] instance is phase\<close>.
\<close>

theorem display_went_away:
  assumes "i st \<noteq> 0" and "fetched p = Inr items" and "logs_ok items"
    and "range_of (instanceStatus (snd (display_instances items st))) (keys p)"
    and "instanceStatus st k \<noteq> None" and "k \<notin> Name ` fst ` set items"
  shows "(\<exists>out. display_cycle p st = (Looping, snd (display_cycle p st))
            \<and> stdout (snd (display_cycle p st)) = stdout st @ out
            \<and> count_list out (WentAway k) = 1)
       \<and> instanceStatus (snd (display_cycle p st)) k = None
       \<and> (\<forall>ps. (\<forall>p' \<in> set ps. k \<notin> fetched_names p') \<longrightarrow>
             instanceStatus (snd (display_loop ps (snd (display_cycle p st)))) k = None)
       \<and> (\<forall>ps q items2 y.
             (\<forall>p' \<in> set ps. k \<notin> fetched_names p')
             \<and> i (snd (display_loop ps (snd (display_cycle p st)))) \<noteq> 0
             \<and> fetched q = Inr items2 \<and> logs_ok items2
             \<and> find (\<lambda>x. Name x = k) (map fst items2) = Some y \<longrightarrow>
             (\<exists>out. display_cycle q (snd (display_loop ps (snd (display_cycle p st)))) =
                      (Looping,
                       snd (display_cycle q (snd (display_loop ps (snd (display_cycle p st))))))
                \<and> stdout (snd (display_cycle q (snd (display_loop ps (snd (display_cycle p st)))))) =
                    stdout (snd (display_loop ps (snd (display_cycle p st)))) @ out
                \<and> filter (appeared k) out = [NewInstance k (ToLower (Phase y))]))"
proof -
  have m: "instanceStatus (snd (display_instances items st)) =
      record_all (map fst items) (instanceStatus st)"
    using display_instances_logs_ok [OF assms(3), of st] by simp
  have "k \<in> dom (record_all (map fst items) (instanceStatus st))"
    using assms(5) by (auto simp: record_all_dom)
  then have ks: "k \<in> set (keys p)" and dk: "distinct (keys p)"
    using assms(4) by (simp_all add: range_of_def m)
  have 1: "\<exists>out. display_cycle p st = (Looping, snd (display_cycle p st))
            \<and> stdout (snd (display_cycle p st)) = stdout st @ out
            \<and> count_list out (WentAway k) = 1"
    using assms(1,2,3) dk ks assms(6) by (rule display_cycle_gone)
  have 2: "instanceStatus (snd (display_cycle p st)) k = None"
    using assms(1,6) by (simp add: display_cycle_ok [OF assms(2,3)])
  have 3: "instanceStatus (snd (display_loop ps (snd (display_cycle p st)))) k = None"
    if "\<forall>p' \<in> set ps. k \<notin> fetched_names p'" for ps
    using 2 that by (rule display_loop_absent)
  have 4: "\<exists>out. display_cycle q (snd (display_loop ps (snd (display_cycle p st)))) =
                      (Looping,
                       snd (display_cycle q (snd (display_loop ps (snd (display_cycle p st))))))
                \<and> stdout (snd (display_cycle q (snd (display_loop ps (snd (display_cycle p st)))))) =
                    stdout (snd (display_loop ps (snd (display_cycle p st)))) @ out
                \<and> filter (appeared k) out = [NewInstance k (ToLower (Phase y))]"
    if h: "(\<forall>p' \<in> set ps. k \<notin> fetched_names p')
             \<and> i (snd (display_loop ps (snd (display_cycle p st)))) \<noteq> 0
             \<and> fetched q = Inr items2 \<and> logs_ok items2
             \<and> find (\<lambda>x. Name x = k) (map fst items2) = Some y"
    for ps and q :: poll and items2 y
  proof -
    have a: "instanceStatus (snd (display_loop ps (snd (display_cycle p st)))) k = None"
      using h 3 by blast
    have b: "i (snd (display_loop ps (snd (display_cycle p st)))) \<noteq> 0"
      and c: "fetched q = Inr items2" and d: "logs_ok items2"
      and e: "find (\<lambda>x. Name x = k) (map fst items2) = Some y"
      using h by blast+
    show ?thesis using b c d a e by (rule display_cycle_new)
  qed
  show ?thesis
  proof (intro conjI allI impI)
    show "\<exists>out. display_cycle p st = (Looping, snd (display_cycle p st))
            \<and> stdout (snd (display_cycle p st)) = stdout st @ out
            \<and> count_list out (WentAway k) = 1"
      by (rule 1)
    show "instanceStatus (snd (display_cycle p st)) k = None" by (rule 2)
  next
    fix ps
    assume "\<forall>p' \<in> set ps. k \<notin> fetched_names p'"
    then show "instanceStatus (snd (display_loop ps (snd (display_cycle p st)))) k = None"
      by (rule 3)
  next
    fix ps and q :: poll and items2 y
    assume "(\<forall>p' \<in> set ps. k \<notin> fetched_names p')
             \<and> i (snd (display_loop ps (snd (display_cycle p st)))) \<noteq> 0
             \<and> fetched q = Inr items2 \<and> logs_ok items2
             \<and> find (\<lambda>x. Name x = k) (map fst items2) = Some y"
    then show "\<exists>out. display_cycle q (snd (display_loop ps (snd (display_cycle p st)))) =
                      (Looping,
                       snd (display_cycle q (snd (display_loop ps (snd (display_cycle p st))))))
                \<and> stdout (snd (display_cycle q (snd (display_loop ps (snd (display_cycle p st)))))) =
                    stdout (snd (display_loop ps (snd (display_cycle p st)))) @ out
                \<and> filter (appeared k) out = [NewInstance k (ToLower (Phase y))]"
      by (rule 4)
  qed
qed

text \<open>
  An instance of the theorem: with \<^verbatim>\<open>A\<close> recorded and the counter at one, a poll that
  returns only \<^verbatim>\<open>B\<close> prints one line for \<^verbatim>\<open>A\<close> going away and drops it from the map.
\<close>

theorem display_went_away_witness:
  "i (seen ''RUNNING'') \<noteq> 0
   \<and> logs_ok [(instance_of ''B'' ''RUNNING'', Inr [])]
   \<and> range_of (instanceStatus (snd (display_instances [(instance_of ''B'' ''RUNNING'', Inr [])]
        (seen ''RUNNING'')))) [''A'', ''B'']
   \<and> instanceStatus (seen ''RUNNING'') ''A'' \<noteq> None
   \<and> ''A'' \<notin> Name ` fst ` set [(instance_of ''B'' ''RUNNING'', Inr [])]
   \<and> count_list
       (stdout (snd (display_cycle (poll_of [(instance_of ''B'' ''RUNNING'', Inr [])] [''A'', ''B''])
          (seen ''RUNNING''))))
       (WentAway ''A'') = 1
   \<and> instanceStatus
       (snd (display_cycle (poll_of [(instance_of ''B'' ''RUNNING'', Inr [])] [''A'', ''B''])
          (seen ''RUNNING''))) ''A'' = None"
proof -
  have h1: "i (seen ''RUNNING'') \<noteq> 0" by (simp add: seen_def)
  have h2: "fetched (poll_of [(instance_of ''B'' ''RUNNING'', Inr [])] [''A'', ''B'']) =
      Inr [(instance_of ''B'' ''RUNNING'', Inr [])]"
    by (simp add: poll_of_def)
  have h3: "logs_ok [(instance_of ''B'' ''RUNNING'', Inr [])]" by (simp add: logs_ok_def)
  have h4: "range_of (instanceStatus (snd (display_instances [(instance_of ''B'' ''RUNNING'', Inr [])]
        (seen ''RUNNING'')))) [''A'', ''B'']"
    by (auto simp: range_of_def display_instances.simps display_instance_def display_status_def
        seen_def instance_of_def found_def Let_def)
  have h4': "range_of (instanceStatus (snd (display_instances [(instance_of ''B'' ''RUNNING'', Inr [])]
        (seen ''RUNNING''))))
      (keys (poll_of [(instance_of ''B'' ''RUNNING'', Inr [])] [''A'', ''B'']))"
    using h4 by (simp add: poll_of_def)
  have h5: "instanceStatus (seen ''RUNNING'') ''A'' \<noteq> None" by (simp add: seen_def)
  have h6: "''A'' \<notin> Name ` fst ` set [(instance_of ''B'' ''RUNNING'', Inr [])]"
    by (simp add: instance_of_def)
  note t = display_went_away [OF h1 h2 h3 h4' h5 h6]
  have a: "count_list
       (stdout (snd (display_cycle (poll_of [(instance_of ''B'' ''RUNNING'', Inr [])] [''A'', ''B''])
          (seen ''RUNNING''))))
       (WentAway ''A'') = 1"
    using t [THEN conjunct1] by (auto simp: seen_def)
  have b: "instanceStatus
       (snd (display_cycle (poll_of [(instance_of ''B'' ''RUNNING'', Inr [])] [''A'', ''B''])
          (seen ''RUNNING''))) ''A'' = None"
    using t [THEN conjunct2, THEN conjunct1] .
  show ?thesis by (intro conjI h1 h3 h4 h5 h6 a b)
qed

text \<open>
  Claim C9. In each of the three loops a fetch that returns an error ends the run at once,
  whatever the later fetches would return: the run is \<open>Exited\<close>, and the monitor is the
  one before that fetch with three more lines of output, the message that names the
  failed query and carries the error (and, for the logs of an instance, the name of the
  instance), \<^verbatim>\<open>Done\<close>, and an empty line. The map, the counter and the time of the
  next query are those before the fetch, and no line about an instance or a request is
  added. For the logs of an instance, the state before the fetch is the one after the
  items before it and after the status of the instance itself has been handled.
\<close>

theorem fetch_error_fatal:
  "(fst (wait_loop pre st) = Looping \<longrightarrow>
      wait_loop (pre @ Inl err # rest) st =
        (Exited, donef ''Error querying instance status: %s'' [err] (snd (wait_loop pre st))))
   \<and> (fst (waf_loop pre' st) = Looping \<longrightarrow>
        waf_loop (pre' @ Inl err # rest') st =
          (Exited, donef ''Error getting WAF requests: %s'' [err] (snd (waf_loop pre' st))))
   \<and> (fst (display_loop ps st) = Looping \<and> fetched p = Inl err \<longrightarrow>
        display_loop (ps @ p # rest'') st =
          (Exited, donef ''Error querying workload instances: %s'' [err]
                     (snd (display_loop ps st))))
   \<and> (fst (display_loop ps st) = Looping \<and> fetched p = Inr (ok @ (x, Inl err) # others)
        \<and> logs_ok ok \<longrightarrow>
        display_loop (ps @ p # rest'') st =
          (Exited, donef ''Error querying %s instance logs: %s'' [Name x, err]
                     (display_status x (snd (display_instances ok (snd (display_loop ps st)))))))
   \<and> instanceStatus (donef format args s) = instanceStatus s
   \<and> i (donef format args s) = i s
   \<and> mostRecentRequestTime (donef format args s) = mostRecentRequestTime s
   \<and> stdout (donef format args s) = stdout s @ [Errorf format args, Println ''Done'', Println '''']
   \<and> filter is_transition (stdout (donef format args s)) = filter is_transition (stdout s)"
proof (intro conjI impI)
  assume "fst (wait_loop pre st) = Looping"
  then show "wait_loop (pre @ Inl err # rest) st =
        (Exited, donef ''Error querying instance status: %s'' [err] (snd (wait_loop pre st)))"
    by (simp only: wait_loop_append wait_loop_Inl)
next
  assume "fst (waf_loop pre' st) = Looping"
  then show "waf_loop (pre' @ Inl err # rest') st =
          (Exited, donef ''Error getting WAF requests: %s'' [err] (snd (waf_loop pre' st)))"
    by (simp only: waf_loop_append_any waf_loop_Inl)
next
  assume a: "fst (display_loop ps st) = Looping \<and> fetched p = Inl err"
  then have "display_loop (ps @ p # rest'') st = display_loop (p # rest'') (snd (display_loop ps st))"
    by (simp only: display_loop_append)
  also have "\<dots> = (Exited, donef ''Error querying workload instances: %s'' [err]
                     (snd (display_loop ps st)))"
    using a by (simp only: display_loop_Inl)
  finally show "display_loop (ps @ p # rest'') st =
          (Exited, donef ''Error querying workload instances: %s'' [err]
                     (snd (display_loop ps st)))" .
next
  assume a: "fst (display_loop ps st) = Looping \<and> fetched p = Inr (ok @ (x, Inl err) # others)
        \<and> logs_ok ok"
  then have "display_loop (ps @ p # rest'') st = display_loop (p # rest'') (snd (display_loop ps st))"
    by (simp only: display_loop_append)
  also have "\<dots> = (Exited, donef ''Error querying %s instance logs: %s'' [Name x, err]
                     (display_status x (snd (display_instances ok (snd (display_loop ps st))))))"
    using a display_loop_logs_Inl [of p ok x err others rest'' "snd (display_loop ps st)"] by blast
  finally show "display_loop (ps @ p # rest'') st =
          (Exited, donef ''Error querying %s instance logs: %s'' [Name x, err]
                     (display_status x (snd (display_instances ok (snd (display_loop ps st))))))" .
next
  show "instanceStatus (donef format args s) = instanceStatus s"
    using donef_frame [of format args s] by blast
  show "i (donef format args s) = i s"
    using donef_frame [of format args s] by blast
  show "mostRecentRequestTime (donef format args s) = mostRecentRequestTime s"
    using donef_frame [of format args s] by blast
  show "stdout (donef format args s) = stdout s @ [Errorf format args, Println ''Done'', Println '''']"
    using donef_frame [of format args s] by blast
  show "filter is_transition (stdout (donef format args s)) = filter is_transition (stdout s)"
    using donef_frame [of format args s] by blast
qed

text \<open>
  An instance of the theorem: the WAF monitor, started at time \<open>0\<close>, prints one request
  and stops at the error of the second fetch, the third fetch being ignored; the
  continuous monitor, with \<^verbatim>\<open>A\<close> recorded as pending, stops when the logs of \<^verbatim>\<open>A\<close>,
  now running, cannot be fetched.
\<close>

theorem fetch_error_fatal_witness:
  "fst (waf_loop [Inr [request_at 1]] (start 0)) = Looping
   \<and> waf_loop ([Inr [request_at 1]] @ Inl ''timeout'' # [Inr [request_at 2000000000]]) (start 0) =
       (Exited, \<lparr>instanceStatus = Map.empty, i = 0, mostRecentRequestTime = 1000000001,
                 stdout = [waf_line (request_at 1),
                           Errorf ''Error getting WAF requests: %s'' [''timeout''],
                           Println ''Done'', Println '''']\<rparr>)
   \<and> fst (display_loop [] (seen ''PENDING'')) = Looping
   \<and> logs_ok []
   \<and> display_loop
       ([] @ poll_of ([] @ (instance_of ''A'' ''RUNNING'', Inl ''timeout'') # []) [''A''] # [])
       (seen ''PENDING'') =
       (Exited, \<lparr>instanceStatus = [''A'' \<mapsto> ''RUNNING''], i = 1, mostRecentRequestTime = 0,
                 stdout = [InstanceNow ''A'' ''running'',
                           Errorf ''Error querying %s instance logs: %s'' [''A'', ''timeout''],
                           Println ''Done'', Println '''']\<rparr>)"
proof -
  have h1: "fst (waf_loop [Inr [request_at 1]] (start 0)) = Looping"
    by (simp add: waf_cycle_Inr)
  have h2: "fst (display_loop [] (seen ''PENDING'')) = Looping
      \<and> fetched (poll_of ([] @ (instance_of ''A'' ''RUNNING'', Inl ''timeout'') # []) [''A'']) =
          Inr ([] @ (instance_of ''A'' ''RUNNING'', Inl ''timeout'') # [])
      \<and> logs_ok []"
    by (simp add: poll_of_def logs_ok_def)
  note t = fetch_error_fatal [of "[]" "start 0" "''timeout''" "[]" "[Inr [request_at 1]]"
      "[Inr [request_at 2000000000]]"]
  note u = fetch_error_fatal [of "[]" "seen ''PENDING''" "''timeout''" "[]" "[]" "[]" "[]"
      "poll_of ([] @ (instance_of ''A'' ''RUNNING'', Inl ''timeout'') # []) [''A'']" "[]" "[]"
      "instance_of ''A'' ''RUNNING''" "[]"]
  have a: "waf_loop ([Inr [request_at 1]] @ Inl ''timeout'' # [Inr [request_at 2000000000]]) (start 0) =
       (Exited, \<lparr>instanceStatus = Map.empty, i = 0, mostRecentRequestTime = 1000000001,
                 stdout = [waf_line (request_at 1),
                           Errorf ''Error getting WAF requests: %s'' [''timeout''],
                           Println ''Done'', Println '''']\<rparr>)"
    using t [THEN conjunct2, THEN conjunct1, rule_format, OF h1]
    by (simp add: waf_cycle_Inr donef_def start_def request_at_def Second_def)
  have b: "display_loop
       ([] @ poll_of ([] @ (instance_of ''A'' ''RUNNING'', Inl ''timeout'') # []) [''A''] # [])
       (seen ''PENDING'') =
       (Exited, \<lparr>instanceStatus = [''A'' \<mapsto> ''RUNNING''], i = 1, mostRecentRequestTime = 0,
                 stdout = [InstanceNow ''A'' ''running'',
                           Errorf ''Error querying %s instance logs: %s'' [''A'', ''timeout''],
                           Println ''Done'', Println '''']\<rparr>)"
    using u [THEN conjunct2, THEN conjunct2, THEN conjunct2, THEN conjunct1, rule_format, OF h2]
    by (simp add: donef_def display_status_def seen_def instance_of_def found_def index_def
        Let_def ToLower_RUNNING)
  show ?thesis using h1 h2 a b by simp
qed

end
